theory Spec2Isabelle
  imports Main
begin

section \<open>Root processing of the Shenandoah collector (shenandoahRootProcessor.cpp)\<close>

text \<open>
  The file orchestrates the scan of the VM's root sets by a gang of GC workers. Every
  worker runs the same member function of one shared processor object; the workers
  coordinate through the processor's \<open>SubTasksDone\<close> claim bits and through the cursors
  of the iterators it owns. The root sets themselves (\<open>Universe\<close>, \<open>JNIHandles\<close>,
  \<open>Threads\<close>, ...) live in other files of the VM: a visit of one of them is recorded
  here as a call, with the closures it was handed, in a log shared by all workers.
\<close>

subsection \<open>Closures and pointers\<close>

text \<open>
  A C++ pointer argument is an \<open>option\<close>: \<open>None\<close> is \<open>NULL\<close>. Closures supplied by the
  caller are told apart by a number; the closures the file builds itself
  (\<open>CLDToOopClosure\<close>, \<open>CodeBlobToOopClosure\<close>, \<open>AlwaysTrueClosure\<close>) are constructors
  that keep their arguments.
\<close>

type_synonym oop = nat
type_synonym worker_id = nat
type_synonym Phase = nat

datatype OopClosure = OopClosure nat

datatype BoolObjectClosure = AlwaysTrueClosure | BoolObjectClosure "oop \<Rightarrow> bool"

datatype CLDClosure = CLDClosure nat | CLDToOopClosure "OopClosure option"

datatype CodeBlobClosure = CodeBlobClosure nat | CodeBlobToOopClosure "OopClosure option" bool

datatype ThreadClosure = ThreadClosure nat

fun do_object_b :: "BoolObjectClosure \<Rightarrow> oop \<Rightarrow> bool" where
  "do_object_b AlwaysTrueClosure p = True"
| "do_object_b (BoolObjectClosure f) p = f p"

text \<open>\<open>CodeBlobToOopClosure::FixRelocations\<close> is a constant of memory/iterator.hpp.\<close>

definition FixRelocations :: bool where
  "FixRelocations = True"

subsection \<open>Claimable tasks and collaborator calls\<close>

text \<open>
  The two enumerations of shenandoahRootProcessor.hpp: the tasks of the
  \<open>SubTasksDone\<close> of a \<open>ShenandoahRootProcessor\<close> and of a \<open>ShenandoahRootEvacuator\<close>.
\<close>

datatype task =
    SHENANDOAH_RP_PS_Universe_oops_do
  | SHENANDOAH_RP_PS_JNIHandles_oops_do
  | SHENANDOAH_RP_PS_JNIHandles_weak_oops_do
  | SHENANDOAH_RP_PS_FlatProfiler_oops_do
  | SHENANDOAH_RP_PS_Management_oops_do
  | SHENANDOAH_RP_PS_SystemDictionary_oops_do
  | SHENANDOAH_RP_PS_jvmti_oops_do
  | SHENANDOAH_EVAC_Universe_oops_do
  | SHENANDOAH_EVAC_JNIHandles_oops_do
  | SHENANDOAH_EVAC_JNIHandles_weak_oops_do
  | SHENANDOAH_EVAC_FlatProfiler_oops_do
  | SHENANDOAH_EVAC_Management_oops_do
  | SHENANDOAH_EVAC_SystemDictionary_oops_do
  | SHENANDOAH_EVAC_jvmti_oops_do

text \<open>
  One constructor for each function of another file that the root processors call to
  visit roots, with the arguments of the call. The last two arguments of
  \<open>StringTable::possibly_parallel_unlink_or_oops_do\<close> are pointers to two \<open>int\<close> counters
  of the caller: the call records what the counters hold when it is made.
\<close>

datatype call =
    CodeCache_blobs_do "CodeBlobClosure option"
  | ClassLoaderDataGraph_cld_do "CLDClosure option"
  | ClassLoaderDataGraph_roots_cld_do "CLDClosure option" "CLDClosure option"
  | Universe_oops_do "OopClosure option"
  | FlatProfiler_oops_do "OopClosure option"
  | Management_oops_do "OopClosure option"
  | JvmtiExport_oops_do "OopClosure option"
  | JNIHandles_oops_do "OopClosure option"
  | JNIHandles_weak_oops_do "BoolObjectClosure option" "OopClosure option"
  | ObjectSynchronizer_oops_do "OopClosure option"
  | SystemDictionary_roots_oops_do "OopClosure option" "OopClosure option"
  | SystemDictionary_oops_do "OopClosure option"
  | StringTable_oops_do "OopClosure option"
  | StringTable_possibly_parallel_oops_do "OopClosure option"
  | StringTable_possibly_parallel_unlink_or_oops_do "BoolObjectClosure option" "OopClosure option" int int
  | ShenandoahStringDedup_oops_do_slow "OopClosure option"
  | ShenandoahStringDedup_parallel_oops_do "OopClosure option"
  | Threads_possibly_parallel_oops_do "OopClosure option" "CLDClosure option" "CodeBlobClosure option"
  | ShenandoahCsetCodeRootsIterator_possibly_parallel_blobs_do "CodeBlobClosure option"
  | ShenandoahSynchronizerIterator_parallel_oops_do "OopClosure option"
  | ShenandoahHeap_evacuate_object oop
  | SubTasksDone_all_tasks_completed

subsection \<open>The shared state\<close>

datatype timing = record_workers_start Phase nat | record_workers_end Phase nat

text \<open>
  What the workers of one scan share: the fields of the processor object
  (\<open>tasks\<close>, \<open>threads_completed\<close>, \<open>n_threads\<close>, \<open>phase\<close>, the cursor of \<open>_om_iterator\<close>),
  the part of the heap the pending-list-lock pre-pass reads and writes, the global
  switches the code tests, the intern table, the phase timings, the log of the calls
  made so far, each with the worker that made it, and \<open>fatal\<close>: the message of the
  failed assertion or crash that stopped the VM, if any.

  \<open>debug_build\<close> tells how the VM was built. The \<open>assert(p, msg)\<close> of
  utilities/debug.hpp is a macro that tests \<open>p\<close> only when \<open>ASSERT\<close> is defined, which it
  is in debug builds; in a product build it expands to nothing.
\<close>

record vm =
  tasks :: "task set"
  threads_completed :: nat
  n_threads :: nat
  par_threads :: nat
  phase :: Phase
  om_cursor :: nat
  om_chunks :: nat
  pending_list_lock :: "oop option"
  collection_set :: "oop set"
  forwardee :: "oop \<Rightarrow> oop option"
  to_space :: "oop list"
  relocated :: "oop list"
  evacuation_in_progress :: bool
  at_safepoint :: bool
  dedup_enabled :: bool
  debug_build :: bool
  string_table :: "oop list"
  clock :: nat
  timings :: "timing list"
  visit_log :: "(worker_id \<times> call) list"
  fatal :: "string option"

subsection \<open>Collaborators\<close>

text \<open>
  Modelled from the spec: \<open>SubTasksDone::is_task_claimed\<close> (utilities/workgroup.cpp is
  not part of the sources). The spec's \<open>try_claim\<close> atomically moves a task from
  unclaimed to claimed and succeeds for exactly one caller; \<open>is_task_claimed\<close> is its
  negation: it answers whether the task had been claimed before, and claims it.
\<close>

definition is_task_claimed :: "task \<Rightarrow> vm \<Rightarrow> bool \<times> vm" where
  "is_task_claimed t s = (t \<in> tasks s, s\<lparr>tasks := insert t (tasks s)\<rparr>)"

text \<open>
  Modelled from the spec: \<open>SubTasksDone::all_tasks_completed\<close>, the spec's
  \<open>mark_worker_done\<close>: one more worker has attempted all its tasks.
\<close>

definition all_tasks_completed :: "vm \<Rightarrow> vm" where
  "all_tasks_completed s = s\<lparr>threads_completed := Suc (threads_completed s)\<rparr>"

text \<open>
  Modelled from the spec: \<open>ShenandoahSynchronizerIterator::parallel_oops_do\<close>, the
  spec's \<open>next_chunk(visitor) -> more_remaining\<close>. The cursor advances atomically; a
  call that finds a chunk visits it with the closure and answers true, a call after
  exhaustion does nothing and answers false.
\<close>

definition parallel_oops_do :: "OopClosure option \<Rightarrow> worker_id \<Rightarrow> vm \<Rightarrow> bool \<times> vm" where
  "parallel_oops_do f w s =
     (if om_cursor s < om_chunks s
      then (True, s\<lparr>om_cursor := Suc (om_cursor s),
                     visit_log := visit_log s @ [(w, ShenandoahSynchronizerIterator_parallel_oops_do f)]\<rparr>)
      else (False, s))"

text \<open>
  Modelled from the spec: \<open>ShenandoahBarrierSet::resolve_forwarded_not_null\<close>. An object
  that is not yet forwarded resolves to itself, a forwarded one to its copy.
\<close>

definition resolve_forwarded_not_null :: "vm \<Rightarrow> oop \<Rightarrow> oop" where
  "resolve_forwarded_not_null s p = (case forwardee s p of None \<Rightarrow> p | Some q \<Rightarrow> q)"

text \<open>
  Modelled from the spec: \<open>ShenandoahHeap::evacuate_object\<close>, a compare-and-set
  "forward if not already forwarded". An object that has a forwardee is left alone; an
  allocation failure is tolerated and leaves the object where it is; otherwise the
  object gets its forwardee and one relocation is counted.
\<close>

definition evacuate_object :: "oop \<Rightarrow> vm \<Rightarrow> vm" where
  "evacuate_object p s =
     (case forwardee s p of
        Some q \<Rightarrow> s
      | None \<Rightarrow>
          (case to_space s of
             [] \<Rightarrow> s
           | a # as \<Rightarrow> s\<lparr>forwardee := (forwardee s)(p \<mapsto> a), to_space := as,
                           relocated := relocated s @ [p]\<rparr>))"

text \<open>
  Modelled from the spec: \<open>StringTable::possibly_parallel_unlink_or_oops_do\<close>, the
  spec's \<open>traverse_or_unlink(isAlivePredicate, visitor) -> (processed, removed)\<close>. The
  entries the predicate calls dead are unlinked; the two counters of the caller are
  advanced by the number of entries looked at and of entries removed.
\<close>

definition possibly_parallel_unlink_or_oops_do ::
  "BoolObjectClosure \<Rightarrow> oop list \<Rightarrow> int \<Rightarrow> int \<Rightarrow> oop list \<times> int \<times> int" where
  "possibly_parallel_unlink_or_oops_do is_alive table processed removed =
     (filter (do_object_b is_alive) table,
      processed + int (length table),
      removed + int (length (filter (\<lambda>p. \<not> do_object_b is_alive p) table)))"

text \<open>
  What a call does to the shared state besides being logged. Only two of the callees
  touch a part of the state that is modelled: the unlinking traversal of the intern
  table (a NULL predicate is dereferenced at the first entry), and
  \<open>all_tasks_completed\<close>. The traversal writes its counts to the two counters it was
  handed; they are locals of the block that makes the call and nothing reads them
  afterwards, so no part of the state receives them.
\<close>

fun collaborator :: "call \<Rightarrow> vm \<Rightarrow> vm" where
  "collaborator (StringTable_possibly_parallel_unlink_or_oops_do is_alive f processed removed) s =
     (case is_alive of
        None \<Rightarrow> (if string_table s = [] then s else s\<lparr>fatal := Some ''SIGSEGV''\<rparr>)
      | Some cl \<Rightarrow>
          (let (table, processed, removed) =
                 possibly_parallel_unlink_or_oops_do cl (string_table s) processed removed
           in s\<lparr>string_table := table\<rparr>))"
| "collaborator SubTasksDone_all_tasks_completed s = all_tasks_completed s"
| "collaborator c s = s"

subsection \<open>The atomic actions of a worker\<close>

text \<open>
  The body of a member function is a list of instructions, one for each action that
  other workers can observe. \<open>When c body\<close> is an \<open>if\<close> on a condition that reads (or,
  for a claim, writes) the shared state; an \<open>if\<close> on the arguments alone is decided
  when the list is built. The local variable \<open>pll\<close> of \<open>process_evacuate_roots\<close> is the
  one register of a worker; whether the slot it is loaded from holds a compressed
  reference is a matter of memory layout and makes no difference to the value.

  \<open>Assert b msg\<close> is \<open>assert(b, msg)\<close> on a condition over the arguments, and
  \<open>Assert_is_evacuation_in_progress\<close> the assertion that the heap is evacuating: in a
  debug build a condition that is false stops the VM with the message, in a product
  build the instruction does nothing.

  Left out are the scoped \<open>ShenandoahWorkerTimingsTracker\<close> around each traversal,
  which only feeds the per-worker timing table, and the \<open>ResourceMark\<close> around the
  thread traversal.
\<close>

datatype cond =
    not_is_task_claimed task
  | StringDedup_is_enabled
  | pll_in_collection_set
  | pll_not_forwarded

datatype instr =
    When cond "instr list"
  | Call call
  | While_om_parallel_oops_do "OopClosure option"
  | Assert bool string
  | Assert_is_evacuation_in_progress
  | Load_pending_list_lock
  | Evacuate_pll

fun eval_cond :: "cond \<Rightarrow> oop option \<Rightarrow> vm \<Rightarrow> bool \<times> vm" where
  "eval_cond (not_is_task_claimed t) pll s =
     (let (claimed, s') = is_task_claimed t s in (\<not> claimed, s'))"
| "eval_cond StringDedup_is_enabled pll s = (dedup_enabled s, s)"
| "eval_cond pll_in_collection_set pll s =
     ((case pll of None \<Rightarrow> False | Some p \<Rightarrow> p \<in> collection_set s), s)"
| "eval_cond pll_not_forwarded pll s =
     ((case pll of None \<Rightarrow> False | Some p \<Rightarrow> p = resolve_forwarded_not_null s p), s)"

text \<open>
  One action of worker \<open>w\<close>: the new value of its register, the new shared state, and
  the instructions the action puts in front of the rest of the worker's list.
\<close>

fun act :: "worker_id \<Rightarrow> instr \<Rightarrow> oop option \<Rightarrow> vm \<Rightarrow> oop option \<times> vm \<times> instr list" where
  "act w (When c body) pll s =
     (let (b, s') = eval_cond c pll s in (pll, s', if b then body else []))"
| "act w (Call c) pll s =
     (pll, collaborator c (s\<lparr>visit_log := visit_log s @ [(w, c)]\<rparr>), [])"
| "act w (While_om_parallel_oops_do f) pll s =
     (let (more, s') = parallel_oops_do f w s
      in (pll, s', if more then [While_om_parallel_oops_do f] else []))"
| "act w (Assert b msg) pll s =
     (pll, if debug_build s \<and> \<not> b then s\<lparr>fatal := Some msg\<rparr> else s, [])"
| "act w Assert_is_evacuation_in_progress pll s =
     (pll, if debug_build s \<and> \<not> evacuation_in_progress s
           then s\<lparr>fatal := Some ''only when evacuating''\<rparr> else s, [])"
| "act w Load_pending_list_lock pll s = (pending_list_lock s, s, [])"
| "act w Evacuate_pll pll s =
     (case pll of
        None \<Rightarrow> (pll, s, [])
      | Some p \<Rightarrow>
          (pll, evacuate_object p (s\<lparr>visit_log := visit_log s @ [(w, ShenandoahHeap_evacuate_object p)]\<rparr>), []))"

subsection \<open>One worker on its own, and a gang of workers\<close>

record worker =
  pll_reg :: "oop option"
  todo :: "instr list"

text \<open>
  A step of worker \<open>w\<close> is the action of the first instruction of its list. Nothing
  moves once the VM has stopped on a fatal error.
\<close>

definition step :: "worker_id \<Rightarrow> worker \<Rightarrow> vm \<Rightarrow> worker \<times> vm" where
  "step w wk s =
     (case todo wk of
        [] \<Rightarrow> (wk, s)
      | i # rest \<Rightarrow>
          (if fatal s \<noteq> None then (wk, s)
           else (case act w i (pll_reg wk) s of
                   (pll', s', pre) \<Rightarrow> (\<lparr>pll_reg = pll', todo = pre @ rest\<rparr>, s'))))"

text \<open>
  A schedule is the list of the workers that move, in the order in which they move:
  every interleaving of the workers' actions is the run of some schedule. Each
  scheduled step takes one tick of the clock.
\<close>

definition sched_step :: "worker_id \<Rightarrow> worker list \<times> vm \<Rightarrow> worker list \<times> vm" where
  "sched_step w cfg =
     (case cfg of
        (pool, s) \<Rightarrow>
          (if w < length pool
           then (case step w (pool ! w) s of
                   (wk', s') \<Rightarrow> (pool[w := wk'], s'\<lparr>clock := Suc (clock s')\<rparr>))
           else (pool, s)))"

fun run :: "worker_id list \<Rightarrow> worker list \<times> vm \<Rightarrow> worker list \<times> vm" where
  "run [] cfg = cfg"
| "run (w # ws) cfg = run ws (sched_step w cfg)"

definition gang :: "(worker_id \<Rightarrow> instr list) \<Rightarrow> nat \<Rightarrow> worker list" where
  "gang body n = map (\<lambda>w. \<lparr>pll_reg = None, todo = body w\<rparr>) [0..<n]"

definition all_done :: "worker list \<Rightarrow> bool" where
  "all_done pool = list_all (\<lambda>wk. todo wk = []) pool"

text \<open>
  A call of a member function by a worker that is not interrupted: its instructions
  are run to the end, or to the fatal error that stops the VM. Every action either
  shortens the list or is a successful \<open>parallel_oops_do\<close>, which moves the cursor
  of the monitor iterator towards its end.
\<close>

fun isize :: "instr \<Rightarrow> nat" where
  "isize (When c body) = Suc (sum_list (map isize body))"
| "isize i = Suc 0"

lemma act_decreases:
  assumes "act w i pll s = (pll', s', pre)"
  shows "sum_list (map isize pre) < isize i
         \<or> (pre = [i] \<and> om_chunks s' - om_cursor s' < om_chunks s - om_cursor s)"
proof (cases i)
  case (When c body)
  with assms show ?thesis by (auto split: prod.splits if_splits)
next
  case (While_om_parallel_oops_do f)
  with assms show ?thesis
    by (auto simp: parallel_oops_do_def split: prod.splits if_splits)
next
  case Evacuate_pll
  with assms show ?thesis by (auto split: option.splits)
qed (use assms in auto)

function exec :: "worker_id \<Rightarrow> instr list \<Rightarrow> oop option \<times> vm \<Rightarrow> oop option \<times> vm" where
  "exec w [] (pll, s) = (pll, s)"
| "exec w (i # rest) (pll, s) =
     (if fatal s \<noteq> None then (pll, s)
      else (case act w i pll s of (pll', s', pre) \<Rightarrow> exec w (pre @ rest) (pll', s')))"
  by pat_completeness auto
termination
proof (relation "inv_image (less_than <*lex*> less_than)
    (\<lambda>(w, p, pll, s). (sum_list (map isize p), om_chunks s - om_cursor s))")
  show "wf (inv_image (less_than <*lex*> less_than)
    (\<lambda>(w, p, pll, s). (sum_list (map isize p), om_chunks (s::vm) - om_cursor s)))"
    by (intro wf_inv_image wf_lex_prod wf_less_than)
next
  fix w :: worker_id and i rest pll and s :: vm and pll' y s' pre
  assume "(pll', y) = act w i pll s" "(s', pre) = y"
  then have "act w i pll s = (pll', s', pre)" by simp
  from act_decreases [OF this]
  show "((w, pre @ rest, pll', s'), (w, i # rest, pll, s))
        \<in> inv_image (less_than <*lex*> less_than)
            (\<lambda>(w, p, pll, s). (sum_list (map isize p), om_chunks s - om_cursor s))"
    by auto
qed

subsection \<open>Construction and destruction of the processors\<close>

text \<open>
  \<open>ParallelCLDRootIterator::ParallelCLDRootIterator\<close>, run for the member
  \<open>_cld_iterator\<close> of either processor. The claim marks it clears belong to the
  class-loader graph and are not part of the state.
\<close>

definition ParallelCLDRootIterator :: "vm \<Rightarrow> vm" where
  "ParallelCLDRootIterator s =
     (if debug_build s \<and> \<not> at_safepoint s then s\<lparr>fatal := Some ''Must at safepoint''\<rparr> else s)"

text \<open>
  \<open>ShenandoahRootProcessor::ShenandoahRootProcessor\<close>: a fresh \<open>SubTasksDone\<close> with no
  task claimed, told the number of workers, and a fresh monitor iterator. The strong
  roots scope, the code-root iterator and the claims of the deduplication table, which
  the constructor also sets up, belong to callees whose state is not modelled. The
  destructor only frees the \<open>SubTasksDone\<close>.
\<close>

definition ShenandoahRootProcessor :: "nat \<Rightarrow> Phase \<Rightarrow> vm \<Rightarrow> vm" where
  "ShenandoahRootProcessor n_workers ph s =
     (let s = ParallelCLDRootIterator s in
      if fatal s \<noteq> None then s
      else s\<lparr>tasks := {}, threads_completed := 0, n_threads := n_workers,
              par_threads := n_workers, phase := ph, om_cursor := 0\<rparr>)"

text \<open>
  Modelled from the spec: \<open>ShenandoahPhaseTimings::record_workers_start\<close> and
  \<open>record_workers_end\<close>. Construction records a phase-start timestamp with the timing
  aggregator, destruction records the phase end.
\<close>

definition workers_start :: "Phase \<Rightarrow> vm \<Rightarrow> vm" where
  "workers_start ph s = s\<lparr>timings := timings s @ [record_workers_start ph (clock s)]\<rparr>"

definition workers_end :: "Phase \<Rightarrow> vm \<Rightarrow> vm" where
  "workers_end ph s = s\<lparr>timings := timings s @ [record_workers_end ph (clock s)]\<rparr>"

text \<open>
  \<open>ShenandoahRootEvacuator::ShenandoahRootEvacuator\<close> and its destructor. The
  constructor does not call \<open>set_n_threads\<close>.
\<close>

definition ShenandoahRootEvacuator :: "nat \<Rightarrow> Phase \<Rightarrow> vm \<Rightarrow> vm" where
  "ShenandoahRootEvacuator n_workers ph s =
     (let s = ParallelCLDRootIterator s in
      if fatal s \<noteq> None then s
      else workers_start ph
             (s\<lparr>tasks := {}, threads_completed := 0, par_threads := n_workers,
                phase := ph, om_cursor := 0\<rparr>))"

definition ShenandoahRootEvacuator_destructor :: "vm \<Rightarrow> vm" where
  "ShenandoahRootEvacuator_destructor s = workers_end (phase s) s"

subsection \<open>The member functions\<close>

text \<open>
  Each function is the list of the actions of its body, in the order of the source.
  \<open>process_all_roots\<close> only forwards to the template \<open>update_all_roots\<close> of
  shenandoahRootProcessor.inline.hpp and is not modelled.
\<close>

text \<open>\<open>ParallelCLDRootIterator::root_cld_do\<close>\<close>

definition root_cld_do :: "CLDClosure option \<Rightarrow> CLDClosure option \<Rightarrow> instr list" where
  "root_cld_do strong weak = [Call (ClassLoaderDataGraph_roots_cld_do strong weak)]"

text \<open>\<open>ShenandoahRootProcessor::process_all_roots_slow\<close>\<close>

definition process_all_roots_slow :: "OopClosure option \<Rightarrow> instr list" where
  "process_all_roots_slow oops =
     (let always_true = AlwaysTrueClosure;
          clds = CLDToOopClosure oops;
          blobs = CodeBlobToOopClosure oops (\<not> FixRelocations)
      in [Call (CodeCache_blobs_do (Some blobs)),
          Call (ClassLoaderDataGraph_cld_do (Some clds)),
          Call (Universe_oops_do oops),
          Call (FlatProfiler_oops_do oops),
          Call (Management_oops_do oops),
          Call (JvmtiExport_oops_do oops),
          Call (JNIHandles_oops_do oops),
          Call (JNIHandles_weak_oops_do (Some always_true) oops),
          Call (ObjectSynchronizer_oops_do oops),
          Call (SystemDictionary_roots_oops_do oops oops),
          Call (StringTable_oops_do oops),
          When StringDedup_is_enabled [Call (ShenandoahStringDedup_oops_do_slow oops)],
          Call (Threads_possibly_parallel_oops_do oops (Some clds) (Some blobs))])"

text \<open>\<open>ShenandoahRootProcessor::process_java_roots\<close>\<close>

definition process_java_roots ::
  "OopClosure option \<Rightarrow> CLDClosure option \<Rightarrow> CLDClosure option \<Rightarrow> CodeBlobClosure option \<Rightarrow>
   ThreadClosure option \<Rightarrow> worker_id \<Rightarrow> instr list" where
  "process_java_roots strong_roots strong_clds weak_clds strong_code thread_cl worker_id =
     root_cld_do strong_clds weak_clds
     @ [Call (Threads_possibly_parallel_oops_do strong_roots strong_clds strong_code)]"

text \<open>\<open>ShenandoahRootProcessor::process_vm_roots\<close>\<close>

definition process_vm_roots ::
  "OopClosure option \<Rightarrow> OopClosure option \<Rightarrow> BoolObjectClosure option \<Rightarrow> worker_id \<Rightarrow> instr list"
  where
  "process_vm_roots strong_roots weak_roots is_alive worker_id =
     [When (not_is_task_claimed SHENANDOAH_RP_PS_Universe_oops_do)
        [Call (Universe_oops_do strong_roots)],
      When (not_is_task_claimed SHENANDOAH_RP_PS_JNIHandles_oops_do)
        [Call (JNIHandles_oops_do strong_roots)],
      When (not_is_task_claimed SHENANDOAH_RP_PS_FlatProfiler_oops_do)
        [Call (FlatProfiler_oops_do strong_roots)],
      When (not_is_task_claimed SHENANDOAH_RP_PS_Management_oops_do)
        [Call (Management_oops_do strong_roots)],
      When (not_is_task_claimed SHENANDOAH_RP_PS_jvmti_oops_do)
        [Call (JvmtiExport_oops_do strong_roots)],
      When (not_is_task_claimed SHENANDOAH_RP_PS_SystemDictionary_oops_do)
        [Call (SystemDictionary_roots_oops_do strong_roots weak_roots)]]
     @ (if weak_roots \<noteq> None
        then [When (not_is_task_claimed SHENANDOAH_RP_PS_JNIHandles_weak_oops_do)
                [Call (JNIHandles_weak_oops_do is_alive weak_roots)]]
        else [])
     @ [When StringDedup_is_enabled
          (if weak_roots \<noteq> None
           then [Call (ShenandoahStringDedup_parallel_oops_do weak_roots)]
           else [])]
     @ [While_om_parallel_oops_do strong_roots]
     @ (if weak_roots \<noteq> None
        then [Call (StringTable_possibly_parallel_unlink_or_oops_do is_alive weak_roots 0 0)]
        else [])"

text \<open>\<open>ShenandoahRootProcessor::process_strong_roots\<close>\<close>

definition process_strong_roots ::
  "OopClosure option \<Rightarrow> CLDClosure option \<Rightarrow> CodeBlobClosure option \<Rightarrow>
   ThreadClosure option \<Rightarrow> worker_id \<Rightarrow> instr list" where
  "process_strong_roots oops clds blobs thread_cl worker_id =
     [Assert (thread_cl = None) ''not implemented yet'']
     @ process_java_roots oops clds None blobs thread_cl worker_id
     @ process_vm_roots oops None None worker_id
     @ [Call SubTasksDone_all_tasks_completed]"

text \<open>\<open>ShenandoahRootEvacuator::process_evacuate_roots\<close>\<close>

definition process_evacuate_roots ::
  "OopClosure option \<Rightarrow> CodeBlobClosure option \<Rightarrow> worker_id \<Rightarrow> instr list" where
  "process_evacuate_roots oops blobs worker_id =
     [Assert_is_evacuation_in_progress,
      Load_pending_list_lock,
      When pll_in_collection_set [When pll_not_forwarded [Evacuate_pll]]]
     @ (let clds = CLDToOopClosure oops in root_cld_do (Some clds) (Some clds))
     @ [Call (Threads_possibly_parallel_oops_do oops None None)]
     @ (if blobs \<noteq> None
        then [Call (ShenandoahCsetCodeRootsIterator_possibly_parallel_blobs_do blobs)]
        else [])
     @ [When (not_is_task_claimed SHENANDOAH_EVAC_Universe_oops_do)
          [Call (Universe_oops_do oops)],
        When (not_is_task_claimed SHENANDOAH_EVAC_JNIHandles_oops_do)
          [Call (JNIHandles_oops_do oops)],
        When (not_is_task_claimed SHENANDOAH_EVAC_FlatProfiler_oops_do)
          [Call (FlatProfiler_oops_do oops)],
        When (not_is_task_claimed SHENANDOAH_EVAC_Management_oops_do)
          [Call (Management_oops_do oops)],
        When (not_is_task_claimed SHENANDOAH_EVAC_jvmti_oops_do)
          [Call (JvmtiExport_oops_do oops)],
        When (not_is_task_claimed SHENANDOAH_EVAC_SystemDictionary_oops_do)
          [Call (SystemDictionary_oops_do oops)],
        When (not_is_task_claimed SHENANDOAH_EVAC_JNIHandles_weak_oops_do)
          [Call (JNIHandles_weak_oops_do (Some AlwaysTrueClosure) oops)],
        When StringDedup_is_enabled
          [Call (ShenandoahStringDedup_parallel_oops_do oops)],
        While_om_parallel_oops_do oops,
        Call (StringTable_possibly_parallel_oops_do oops)]"

subsection \<open>Reading the log\<close>

text \<open>
  What a worker that is left alone gets out of the loop
  \<open>while(_om_iterator.parallel_oops_do(f));\<close>: every chunk that was left.
\<close>

definition drain :: "OopClosure option \<Rightarrow> worker_id \<Rightarrow> vm \<Rightarrow> vm" where
  "drain f w s =
     s\<lparr>om_cursor := max (om_cursor s) (om_chunks s),
       visit_log := visit_log s
         @ replicate (om_chunks s - om_cursor s) (w, ShenandoahSynchronizerIterator_parallel_oops_do f)\<rparr>"

text \<open>The calls logged between two states.\<close>

definition new_calls :: "vm \<Rightarrow> vm \<Rightarrow> (worker_id \<times> call) list" where
  "new_calls s s' = drop (length (visit_log s)) (visit_log s')"

text \<open>
  The visitation order: each logged call, in the order of the log, hands the
  references it discovers to its closures. What a traversal discovers is up to the
  callee, so it is a parameter.
\<close>

definition visitation :: "(call \<Rightarrow> 'r list) \<Rightarrow> (worker_id \<times> call) list \<Rightarrow> (call \<times> 'r) list" where
  "visitation roots calls = concat (map (\<lambda>(w, c). map (Pair c) (roots c)) calls)"

fun is_thread_roots :: "call \<Rightarrow> bool" where
  "is_thread_roots (Threads_possibly_parallel_oops_do f clds blobs) = True"
| "is_thread_roots c = False"

text \<open>A state for the examples: a VM at a safepoint, evacuating, nothing logged yet.\<close>

definition vm_example :: vm where
  "vm_example =
     \<lparr>tasks = {}, threads_completed = 0, n_threads = 2, par_threads = 2, phase = 7,
      om_cursor = 0, om_chunks = 2, pending_list_lock = Some 5, collection_set = {5, 6},
      forwardee = Map.empty, to_space = [100, 101], relocated = [],
      evacuation_in_progress = True, at_safepoint = True, dedup_enabled = False,
      debug_build = True,
      string_table = [40, 41, 42], clock = 0, timings = [], visit_log = [], fatal = None\<rparr>"

text \<open>
  The calls \<open>process_all_roots_slow\<close> makes before it turns to the threads, in the
  order of the source; the deduplication table is visited when that subsystem is on.
\<close>

definition slow_calls :: "OopClosure option \<Rightarrow> bool \<Rightarrow> call list" where
  "slow_calls oops dedup =
      [CodeCache_blobs_do (Some (CodeBlobToOopClosure oops False)),
       ClassLoaderDataGraph_cld_do (Some (CLDToOopClosure oops)),
       Universe_oops_do oops,
       FlatProfiler_oops_do oops,
       Management_oops_do oops,
       JvmtiExport_oops_do oops,
       JNIHandles_oops_do oops,
       JNIHandles_weak_oops_do (Some AlwaysTrueClosure) oops,
       ObjectSynchronizer_oops_do oops,
       SystemDictionary_roots_oops_do oops oops,
       StringTable_oops_do oops]
      @ (if dedup then [ShenandoahStringDedup_oops_do_slow oops] else [])"

text \<open>
  The calls an instruction can log when it runs, now or after the instructions it puts
  in front of the list.
\<close>

fun may_call :: "instr \<Rightarrow> call \<Rightarrow> bool" where
  "may_call (When c body) x = list_ex (\<lambda>i. may_call i x) body"
| "may_call (Call c) x = (x = c)"
| "may_call (While_om_parallel_oops_do f) x = (x = ShenandoahSynchronizerIterator_parallel_oops_do f)"
| "may_call Evacuate_pll x = (case x of ShenandoahHeap_evacuate_object p \<Rightarrow> True | _ \<Rightarrow> False)"
| "may_call i x = False"

definition calls :: "instr list \<Rightarrow> call \<Rightarrow> bool" where
  "calls p x = list_ex (\<lambda>i. may_call i x) p"

text \<open>
  A run of guarded singleton traversals,
  \<open>if (!tasks->is_task_claimed(t)) { c }\<close> for each pair \<open>(t, c)\<close>, and the calls it makes
  when the tasks in \<open>T\<close> are already claimed.
\<close>

definition guards :: "(task \<times> call) list \<Rightarrow> instr list" where
  "guards tcs = map (\<lambda>(t, c). When (not_is_task_claimed t) [Call c]) tcs"

definition unclaimed :: "task set \<Rightarrow> (task \<times> call) list \<Rightarrow> call list" where
  "unclaimed T tcs = map snd (filter (\<lambda>(t, c). t \<notin> T) tcs)"

text \<open>
  The claim-guarded traversals of \<open>process_vm_roots\<close> and of \<open>process_evacuate_roots\<close>,
  in the order of the source. The weak native handles of \<open>process_vm_roots\<close> are only
  there for a weak closure.
\<close>

definition vm_singletons :: "OopClosure option \<Rightarrow> OopClosure option \<Rightarrow> (task \<times> call) list" where
  "vm_singletons strong_roots weak_roots =
     [(SHENANDOAH_RP_PS_Universe_oops_do, Universe_oops_do strong_roots),
      (SHENANDOAH_RP_PS_JNIHandles_oops_do, JNIHandles_oops_do strong_roots),
      (SHENANDOAH_RP_PS_FlatProfiler_oops_do, FlatProfiler_oops_do strong_roots),
      (SHENANDOAH_RP_PS_Management_oops_do, Management_oops_do strong_roots),
      (SHENANDOAH_RP_PS_jvmti_oops_do, JvmtiExport_oops_do strong_roots),
      (SHENANDOAH_RP_PS_SystemDictionary_oops_do, SystemDictionary_roots_oops_do strong_roots weak_roots)]"

definition vm_weak_singletons :: "OopClosure option \<Rightarrow> BoolObjectClosure option \<Rightarrow> (task \<times> call) list" where
  "vm_weak_singletons weak_roots is_alive =
     (if weak_roots \<noteq> None
      then [(SHENANDOAH_RP_PS_JNIHandles_weak_oops_do, JNIHandles_weak_oops_do is_alive weak_roots)]
      else [])"

definition evac_singletons :: "OopClosure option \<Rightarrow> (task \<times> call) list" where
  "evac_singletons oops =
     [(SHENANDOAH_EVAC_Universe_oops_do, Universe_oops_do oops),
      (SHENANDOAH_EVAC_JNIHandles_oops_do, JNIHandles_oops_do oops),
      (SHENANDOAH_EVAC_FlatProfiler_oops_do, FlatProfiler_oops_do oops),
      (SHENANDOAH_EVAC_Management_oops_do, Management_oops_do oops),
      (SHENANDOAH_EVAC_jvmti_oops_do, JvmtiExport_oops_do oops),
      (SHENANDOAH_EVAC_SystemDictionary_oops_do, SystemDictionary_oops_do oops),
      (SHENANDOAH_EVAC_JNIHandles_weak_oops_do, JNIHandles_weak_oops_do (Some AlwaysTrueClosure) oops)]"

text \<open>
  The evacuation the pre-pass of \<open>process_evacuate_roots\<close> attempts in a state: of the
  pending-list lock, when the slot is not NULL and the object is in the collection set
  and resolves to itself.
\<close>

definition pll_attempt :: "vm \<Rightarrow> call list" where
  "pll_attempt s =
     (case pending_list_lock s of
        None \<Rightarrow> []
      | Some p \<Rightarrow>
          (if p \<in> collection_set s \<and> p = resolve_forwarded_not_null s p
           then [ShenandoahHeap_evacuate_object p] else []))"

text \<open>
  Kinds of calls: the three traversals \<open>process_vm_roots\<close> makes for a weak closure
  only, the chunks of the monitor table, the liveness predicates a call is handed, the
  code-blob closure a call is handed, and the traversal of the code roots of the
  collection set.
\<close>

fun weak_only :: "call \<Rightarrow> bool" where
  "weak_only (JNIHandles_weak_oops_do is_alive f) = True"
| "weak_only (ShenandoahStringDedup_parallel_oops_do f) = True"
| "weak_only (StringTable_possibly_parallel_unlink_or_oops_do is_alive f processed removed) = True"
| "weak_only c = False"

fun monitor_table :: "call \<Rightarrow> bool" where
  "monitor_table (ShenandoahSynchronizerIterator_parallel_oops_do f) = True"
| "monitor_table c = False"

fun is_alive_of :: "call \<Rightarrow> BoolObjectClosure option list" where
  "is_alive_of (JNIHandles_weak_oops_do is_alive f) = [is_alive]"
| "is_alive_of (StringTable_possibly_parallel_unlink_or_oops_do is_alive f processed removed) = [is_alive]"
| "is_alive_of c = []"

fun code_closure_of :: "call \<Rightarrow> CodeBlobClosure option" where
  "code_closure_of (CodeCache_blobs_do f) = f"
| "code_closure_of (ShenandoahCsetCodeRootsIterator_possibly_parallel_blobs_do f) = f"
| "code_closure_of (Threads_possibly_parallel_oops_do oops clds f) = f"
| "code_closure_of c = None"

fun cset_code_roots :: "call \<Rightarrow> bool" where
  "cset_code_roots (ShenandoahCsetCodeRootsIterator_possibly_parallel_blobs_do f) = True"
| "cset_code_roots c = False"

subsection \<open>Root sources and the claim of a task\<close>

text \<open>
  The root source a call visits is the function that is called, whatever closures it
  is handed: two workers that pass their own closures to \<open>Universe::oops_do\<close> visit the
  same source.
\<close>

fun callee :: "call \<Rightarrow> string" where
  "callee (CodeCache_blobs_do f) = ''CodeCache::blobs_do''"
| "callee (ClassLoaderDataGraph_cld_do f) = ''ClassLoaderDataGraph::cld_do''"
| "callee (ClassLoaderDataGraph_roots_cld_do f g) = ''ClassLoaderDataGraph::roots_cld_do''"
| "callee (Universe_oops_do f) = ''Universe::oops_do''"
| "callee (FlatProfiler_oops_do f) = ''FlatProfiler::oops_do''"
| "callee (Management_oops_do f) = ''Management::oops_do''"
| "callee (JvmtiExport_oops_do f) = ''JvmtiExport::oops_do''"
| "callee (JNIHandles_oops_do f) = ''JNIHandles::oops_do''"
| "callee (JNIHandles_weak_oops_do is_alive f) = ''JNIHandles::weak_oops_do''"
| "callee (ObjectSynchronizer_oops_do f) = ''ObjectSynchronizer::oops_do''"
| "callee (SystemDictionary_roots_oops_do f g) = ''SystemDictionary::roots_oops_do''"
| "callee (SystemDictionary_oops_do f) = ''SystemDictionary::oops_do''"
| "callee (StringTable_oops_do f) = ''StringTable::oops_do''"
| "callee (StringTable_possibly_parallel_oops_do f) = ''StringTable::possibly_parallel_oops_do''"
| "callee (StringTable_possibly_parallel_unlink_or_oops_do is_alive f processed removed) =
     ''StringTable::possibly_parallel_unlink_or_oops_do''"
| "callee (ShenandoahStringDedup_oops_do_slow f) = ''ShenandoahStringDedup::oops_do_slow''"
| "callee (ShenandoahStringDedup_parallel_oops_do f) = ''ShenandoahStringDedup::parallel_oops_do''"
| "callee (Threads_possibly_parallel_oops_do f clds blobs) = ''Threads::possibly_parallel_oops_do''"
| "callee (ShenandoahCsetCodeRootsIterator_possibly_parallel_blobs_do f) =
     ''ShenandoahCsetCodeRootsIterator::possibly_parallel_blobs_do''"
| "callee (ShenandoahSynchronizerIterator_parallel_oops_do f) =
     ''ShenandoahSynchronizerIterator::parallel_oops_do''"
| "callee (ShenandoahHeap_evacuate_object p) = ''ShenandoahHeap::evacuate_object''"
| "callee SubTasksDone_all_tasks_completed = ''SubTasksDone::all_tasks_completed''"

text \<open>
  The sources that \<open>process_vm_roots\<close> and \<open>process_evacuate_roots\<close> visit under a
  claim that no test on the arguments stands in front of, each with its task, in the
  order of the source.
\<close>

definition vm_claimed :: "(task \<times> string) list" where
  "vm_claimed =
     [(SHENANDOAH_RP_PS_Universe_oops_do, ''Universe::oops_do''),
      (SHENANDOAH_RP_PS_JNIHandles_oops_do, ''JNIHandles::oops_do''),
      (SHENANDOAH_RP_PS_FlatProfiler_oops_do, ''FlatProfiler::oops_do''),
      (SHENANDOAH_RP_PS_Management_oops_do, ''Management::oops_do''),
      (SHENANDOAH_RP_PS_jvmti_oops_do, ''JvmtiExport::oops_do''),
      (SHENANDOAH_RP_PS_SystemDictionary_oops_do, ''SystemDictionary::roots_oops_do'')]"

definition evac_claimed :: "(task \<times> string) list" where
  "evac_claimed =
     [(SHENANDOAH_EVAC_Universe_oops_do, ''Universe::oops_do''),
      (SHENANDOAH_EVAC_JNIHandles_oops_do, ''JNIHandles::oops_do''),
      (SHENANDOAH_EVAC_FlatProfiler_oops_do, ''FlatProfiler::oops_do''),
      (SHENANDOAH_EVAC_Management_oops_do, ''Management::oops_do''),
      (SHENANDOAH_EVAC_jvmti_oops_do, ''JvmtiExport::oops_do''),
      (SHENANDOAH_EVAC_SystemDictionary_oops_do, ''SystemDictionary::oops_do''),
      (SHENANDOAH_EVAC_JNIHandles_weak_oops_do, ''JNIHandles::weak_oops_do'')]"

text \<open>
  For a task \<open>t\<close> that guards the source \<open>nm\<close>: \<open>logs\<close> are the sources an instruction
  can visit by its own action; an instruction is owed when it is a call of \<open>nm\<close>,
  which a worker who won the claim still has to make; it is guarded when it is
  \<open>if (!is_task_claimed(t)) { c }\<close> for a call \<open>c\<close> of \<open>nm\<close>; it is quiet when it neither
  claims \<open>t\<close> nor can visit \<open>nm\<close>. A list is tidy when each of its instructions is one
  of the three.
\<close>

fun logs :: "instr \<Rightarrow> string list" where
  "logs (Call c) = [callee c]"
| "logs (While_om_parallel_oops_do f) = [''ShenandoahSynchronizerIterator::parallel_oops_do'']"
| "logs Evacuate_pll = [''ShenandoahHeap::evacuate_object'']"
| "logs i = []"

fun owed :: "string \<Rightarrow> instr \<Rightarrow> bool" where
  "owed nm (Call c) = (callee c = nm)"
| "owed nm i = False"

fun guarded :: "task \<Rightarrow> string \<Rightarrow> instr \<Rightarrow> bool" where
  "guarded t nm (When cd body) =
     (cd = not_is_task_claimed t \<and> length body = 1 \<and> list_all (owed nm) body)"
| "guarded t nm i = False"

fun quiet :: "task \<Rightarrow> string \<Rightarrow> instr \<Rightarrow> bool" where
  "quiet t nm (When cd body) = (cd \<noteq> not_is_task_claimed t \<and> list_all (quiet t nm) body)"
| "quiet t nm i = (nm \<notin> set (logs i))"

definition tidy :: "task \<Rightarrow> string \<Rightarrow> instr \<Rightarrow> bool" where
  "tidy t nm i = (owed nm i \<or> guarded t nm i \<or> quiet t nm i)"

text \<open>How often a source is visited in a log, whoever did it and with whatever closure.\<close>

definition visits :: "string \<Rightarrow> (worker_id \<times> call) list \<Rightarrow> nat" where
  "visits nm lg = length (filter (\<lambda>e. callee (snd e) = nm) lg)"

text \<open>
  The invariant of a gang for the pair \<open>(t, nm)\<close>, where \<open>k\<close> counts the visits of \<open>nm\<close>
  logged before the scan began: the visits of \<open>nm\<close> made and still owed are one more
  than \<open>k\<close> exactly when \<open>t\<close> is claimed, and as long as \<open>t\<close> is unclaimed every worker
  still has a guarded call in front of it.
\<close>

definition pending :: "string \<Rightarrow> worker list \<Rightarrow> nat" where
  "pending nm pool = sum_list (map (\<lambda>wk. length (filter (owed nm) (todo wk))) pool)"

definition claim_inv :: "task \<Rightarrow> string \<Rightarrow> nat \<Rightarrow> worker list \<times> vm \<Rightarrow> bool" where
  "claim_inv t nm k cfg =
     (case cfg of
        (pool, s) \<Rightarrow>
          list_all (\<lambda>wk. list_all (tidy t nm) (todo wk)) pool
          \<and> visits nm (visit_log s) + pending nm pool = k + (if t \<in> tasks s then 1 else 0)
          \<and> (t \<in> tasks s \<or> list_all (\<lambda>wk. list_ex (guarded t nm) (todo wk)) pool))"

definition claims_once :: "task \<Rightarrow> string \<Rightarrow> instr list \<Rightarrow> bool" where
  "claims_once t nm p =
     (list_all (tidy t nm) p \<and> filter (owed nm) p = [] \<and> list_ex (guarded t nm) p)"

text \<open>
  Example scans of two workers that take turns, each begun by its constructor in
  \<open>vm_example\<close>. The first is an evacuation in which both workers pass the same
  closures.
\<close>

definition round_robin :: "worker_id list" where
  "round_robin = [0, 1, 0, 1, 0, 1, 0, 1, 0, 1, 0, 1, 0, 1, 0, 1, 0, 1, 0, 1,
                  0, 1, 0, 1, 0, 1, 0, 1, 0, 1, 0, 1, 0, 1, 0, 1, 0, 1, 0, 1,
                  0, 1, 0, 1, 0, 1, 0, 1, 0, 1]"

definition evac_example :: "worker list \<times> vm" where
  "evac_example =
     run round_robin
       (gang (process_evacuate_roots (Some (OopClosure 1)) (Some (CodeBlobClosure 2))) 2,
        ShenandoahRootEvacuator 2 7 vm_example)"

text \<open>
  An evacuation and a scan of the VM roots by workers that each pass closures of their
  own: worker \<open>w\<close> scans with the closures numbered \<open>w\<close> (and \<open>10 + w\<close> for the weak
  roots).
\<close>

definition evac_own_example :: "worker list \<times> vm" where
  "evac_own_example =
     run round_robin
       (gang (\<lambda>w. process_evacuate_roots (Some (OopClosure w)) (Some (CodeBlobClosure w)) w) 2,
        ShenandoahRootEvacuator 2 7 vm_example)"

definition vm_roots_example :: "worker list \<times> vm" where
  "vm_roots_example =
     run round_robin
       (gang (\<lambda>w. process_vm_roots (Some (OopClosure w)) (Some (OopClosure (10 + w)))
                    (Some AlwaysTrueClosure) w) 2,
        ShenandoahRootProcessor 2 7 vm_example)"

text \<open>
  The attempts to evacuate an object among the calls, and the property of the heap that
  no object has been relocated twice: the relocations counted are distinct objects,
  and each has its forwardee.
\<close>

fun evacuates :: "call \<Rightarrow> bool" where
  "evacuates (ShenandoahHeap_evacuate_object p) = True"
| "evacuates c = False"

definition relocated_once :: "vm \<Rightarrow> bool" where
  "relocated_once s = (distinct (relocated s) \<and> list_all (\<lambda>p. forwardee s p \<noteq> None) (relocated s))"

subsection \<open>An evacuation scan from construction to destruction\<close>

text \<open>
  An instruction is safe when no assertion on the arguments fails in it and it does
  not call through a NULL predicate.
\<close>

fun safe :: "instr \<Rightarrow> bool" where
  "safe (When c body) = list_all safe body"
| "safe (Call (StringTable_possibly_parallel_unlink_or_oops_do is_alive f processed removed)) = (is_alive \<noteq> None)"
| "safe (Assert b msg) = b"
| "safe i = True"

text \<open>
  The life of a \<open>ShenandoahRootEvacuator\<close>: the constructor, the workers of the gang
  running \<open>process_evacuate_roots\<close> under a schedule, and the destructor, which C++
  runs when the scope of the object is left, unless the VM has stopped on a fatal
  error before.
\<close>

definition evacuation_session ::
  "nat \<Rightarrow> Phase \<Rightarrow> OopClosure option \<Rightarrow> CodeBlobClosure option \<Rightarrow> worker_id list \<Rightarrow> vm \<Rightarrow> vm"
  where
  "evacuation_session n_workers ph oops blobs sched s0 =
     (let s1 = ShenandoahRootEvacuator n_workers ph s0;
          s2 = snd (run sched (gang (process_evacuate_roots oops blobs) n_workers, s1))
      in if fatal s2 \<noteq> None then s2 else ShenandoahRootEvacuator_destructor s2)"

text \<open>
  What stays as it is while the workers run: no fatal error, the evacuation in
  progress, the phase timings \<open>T\<close> and the phase \<open>ph\<close> of the processor; the clock does
  not fall below \<open>c0\<close>.
\<close>

definition steady :: "timing list \<Rightarrow> Phase \<Rightarrow> nat \<Rightarrow> vm \<Rightarrow> bool" where
  "steady T ph c0 s =
     (fatal s = None \<and> evacuation_in_progress s \<and> timings s = T \<and> phase s = ph \<and> c0 \<le> clock s)"

text \<open>The same VM in a product build.\<close>

definition product_example :: vm where
  "product_example = vm_example\<lparr>debug_build := False\<rparr>"

section \<open>Properties\<close>

subsection \<open>Running a list of instructions\<close>

lemma exec_fatal: "fatal s \<noteq> None \<Longrightarrow> exec w p (pll, s) = (pll, s)"
  by (cases p) simp_all

lemma exec_Cons:
  "fatal s = None \<Longrightarrow>
   exec w (i # rest) (pll, s) = (case act w i pll s of (pll', s', pre) \<Rightarrow> exec w (pre @ rest) (pll', s'))"
  by simp

declare exec.simps(2) [simp del]

lemma exec_append: "exec w (a @ b) x = exec w b (exec w a x)"
proof (induction w a x rule: exec.induct)
  case (1 w pll s)
  show ?case by simp
next
  case (2 w i rest pll s)
  show ?case
  proof (cases "fatal s = None")
    case True
    obtain pll' s' pre where a: "act w i pll s = (pll', s', pre)"
      by (cases "act w i pll s") auto
    have nf: "\<not> fatal s \<noteq> None" using True by simp
    from True a 2 [OF nf a [symmetric] refl]
    show ?thesis by (simp add: exec_Cons)
  next
    case False
    then show ?thesis by (simp add: exec_fatal)
  qed
qed

lemma exec_While:
  "fatal s = None \<Longrightarrow>
   exec w (While_om_parallel_oops_do f # rest) (pll, s) = exec w rest (pll, drain f w s)"
proof (induction "om_chunks s - om_cursor s" arbitrary: s)
  case 0
  then show ?case
    by (simp add: exec_Cons parallel_oops_do_def drain_def max_def)
next
  case (Suc n)
  let ?s = "s\<lparr>om_cursor := Suc (om_cursor s),
                visit_log := visit_log s @ [(w, ShenandoahSynchronizerIterator_parallel_oops_do f)]\<rparr>"
  from Suc have lt: "om_cursor s < om_chunks s" by simp
  have "exec w (While_om_parallel_oops_do f # rest) (pll, s)
        = exec w (While_om_parallel_oops_do f # rest) (pll, ?s)"
    using Suc.prems lt by (simp add: exec_Cons parallel_oops_do_def)
  also have "\<dots> = exec w rest (pll, drain f w ?s)"
    using Suc by (intro Suc.hyps) auto
  also have "drain f w ?s = drain f w s"
    using lt by (simp add: drain_def max_def replicate_append_same Suc_diff_Suc flip: replicate_Suc)
  finally show ?case .
qed

lemma exec_When:
  "fatal s = None \<Longrightarrow>
   exec w (When c body # rest) (pll, s) =
     (case eval_cond c pll s of (b, s') \<Rightarrow> exec w ((if b then body else []) @ rest) (pll, s'))"
  by (simp add: exec_Cons split: prod.splits)

lemma exec_Call:
  "fatal s = None \<Longrightarrow>
   exec w (Call c # rest) (pll, s) =
     exec w rest (pll, collaborator c (s\<lparr>visit_log := visit_log s @ [(w, c)]\<rparr>))"
  by (simp add: exec_Cons)

lemma exec_Assert:
  "fatal s = None \<Longrightarrow>
   exec w (Assert b msg # rest) (pll, s) =
     (if debug_build s \<and> \<not> b then (pll, s\<lparr>fatal := Some msg\<rparr>) else exec w rest (pll, s))"
  by (simp add: exec_Cons exec_fatal)

lemma exec_Assert_is_evacuation_in_progress:
  "fatal s = None \<Longrightarrow>
   exec w (Assert_is_evacuation_in_progress # rest) (pll, s) =
     (if debug_build s \<and> \<not> evacuation_in_progress s
      then (pll, s\<lparr>fatal := Some ''only when evacuating''\<rparr>)
      else exec w rest (pll, s))"
  by (simp add: exec_Cons exec_fatal)

lemma exec_Load_pending_list_lock:
  "fatal s = None \<Longrightarrow>
   exec w (Load_pending_list_lock # rest) (pll, s) = exec w rest (pending_list_lock s, s)"
  by (simp add: exec_Cons)

lemma exec_Evacuate_pll:
  "fatal s = None \<Longrightarrow>
   exec w (Evacuate_pll # rest) (Some p, s) =
     exec w rest
       (Some p, evacuate_object p (s\<lparr>visit_log := visit_log s @ [(w, ShenandoahHeap_evacuate_object p)]\<rparr>))"
  by (simp add: exec_Cons)

lemmas exec_simps =
  exec_When exec_Call exec_While exec_Assert exec_Assert_is_evacuation_in_progress
  exec_Load_pending_list_lock exec_Evacuate_pll

subsection \<open>The serial scan visits thread roots last\<close>

lemma last_block_order:
  assumes "\<forall>x\<in>set A. \<not> P x" "\<forall>x\<in>set B. P x"
    and "i < length (A @ B)" "j < length (A @ B)" "P ((A @ B) ! i)" "\<not> P ((A @ B) ! j)"
  shows "j < i"
  using assms by (auto simp: nth_append split: if_splits)

lemma slow_log:
  assumes "fatal s = None"
  shows "visit_log (snd (exec w (process_all_roots_slow oops) (pll, s))) =
         visit_log s @ map (Pair w)
          ([CodeCache_blobs_do (Some (CodeBlobToOopClosure oops False)),
            ClassLoaderDataGraph_cld_do (Some (CLDToOopClosure oops)),
            Universe_oops_do oops,
            FlatProfiler_oops_do oops,
            Management_oops_do oops,
            JvmtiExport_oops_do oops,
            JNIHandles_oops_do oops,
            JNIHandles_weak_oops_do (Some AlwaysTrueClosure) oops,
            ObjectSynchronizer_oops_do oops,
            SystemDictionary_roots_oops_do oops oops,
            StringTable_oops_do oops]
           @ (if dedup_enabled s then [ShenandoahStringDedup_oops_do_slow oops] else [])
           @ [Threads_possibly_parallel_oops_do oops (Some (CLDToOopClosure oops))
                (Some (CodeBlobToOopClosure oops False))])"
  using assms by (simp add: process_all_roots_slow_def FixRelocations_def Let_def exec_simps)

lemma visitation_append:
  "visitation roots (xs @ ys) = visitation roots xs @ visitation roots ys"
  by (simp add: visitation_def)

lemma visitation_thread_free:
  "\<forall>e\<in>set xs. \<not> is_thread_roots (snd e) \<Longrightarrow>
   \<forall>x\<in>set (visitation roots xs). \<not> is_thread_roots (fst x)"
  by (auto simp: visitation_def)

lemma visitation_threads:
  "\<forall>e\<in>set xs. is_thread_roots (snd e) \<Longrightarrow>
   \<forall>x\<in>set (visitation roots xs). is_thread_roots (fst x)"
  by (auto simp: visitation_def)

text \<open>
  Claim C4. A call of \<open>process_all_roots_slow\<close> visits the code cache, the class-loader
  graph, the singleton tables, the monitors, the system dictionary, the intern table
  and, when it is enabled, the deduplication table, and only then the threads: in the
  visitation order every reference discovered through the thread traversal comes
  after every reference discovered through any other source.
\<close>

theorem process_all_roots_slow_threads_last:
  assumes "fatal s = None"
  shows "(let s' = snd (exec w (process_all_roots_slow oops) (pll, s));
              V = visitation roots (new_calls s s')
          in new_calls s s' =
               map (Pair w) (slow_calls oops (dedup_enabled s))
               @ [(w, Threads_possibly_parallel_oops_do oops (Some (CLDToOopClosure oops))
                        (Some (CodeBlobToOopClosure oops False)))]
             \<and> (\<forall>c\<in>set (slow_calls oops (dedup_enabled s)). \<not> is_thread_roots c)
             \<and> (\<forall>i j. i < length V \<and> j < length V \<and> is_thread_roots (fst (V ! i))
                         \<and> \<not> is_thread_roots (fst (V ! j)) \<longrightarrow> j < i))"
proof -
  let ?T = "(w, Threads_possibly_parallel_oops_do oops (Some (CLDToOopClosure oops))
                   (Some (CodeBlobToOopClosure oops False)))"
  let ?A = "map (Pair w) (slow_calls oops (dedup_enabled s))"
  let ?s' = "snd (exec w (process_all_roots_slow oops) (pll, s))"
  have calls: "new_calls s ?s' = ?A @ [?T]"
    by (simp add: new_calls_def slow_log [OF assms] slow_calls_def)
  have free: "\<forall>c\<in>set (slow_calls oops (dedup_enabled s)). \<not> is_thread_roots c"
    by (simp add: slow_calls_def)
  have A: "\<forall>x\<in>set (visitation roots ?A). \<not> is_thread_roots (fst x)"
    using free by (intro visitation_thread_free) auto
  have B: "\<forall>x\<in>set (visitation roots [?T]). is_thread_roots (fst x)"
    by (intro visitation_threads) simp
  have "j < i"
    if "i < length (visitation roots (?A @ [?T]))" "j < length (visitation roots (?A @ [?T]))"
      "is_thread_roots (fst (visitation roots (?A @ [?T]) ! i))"
      "\<not> is_thread_roots (fst (visitation roots (?A @ [?T]) ! j))" for i j
    using last_block_order [where P = "\<lambda>x. is_thread_roots (fst x)", OF A B] that
    by (simp add: visitation_append)
  with calls free show ?thesis by (simp add: Let_def)
qed

theorem process_all_roots_slow_threads_last_witness:
  "fatal vm_example = None \<and>
   (let s' = snd (exec 0 (process_all_roots_slow (Some (OopClosure 1))) (None, vm_example));
        V = visitation (\<lambda>c. if is_thread_roots c then [8, 9] else [3::nat]) (new_calls vm_example s')
    in length V = 13 \<and> is_thread_roots (fst (V ! 12)) \<and> \<not> is_thread_roots (fst (V ! 10))
       \<and> map snd V = [3, 3, 3, 3, 3, 3, 3, 3, 3, 3, 3, 8, 9])"
proof -
  have h: "fatal vm_example = None" by (simp add: vm_example_def)
  have d: "dedup_enabled vm_example = False" by (simp add: vm_example_def)
  show ?thesis
    using h process_all_roots_slow_threads_last
      [OF h, of 0 "Some (OopClosure 1)" None "\<lambda>c. if is_thread_roots c then [8, 9] else [3::nat]"]
    by (simp add: Let_def d slow_calls_def visitation_def)
qed

subsection \<open>What a list of instructions can log\<close>

lemma visit_log_collaborator [simp]: "visit_log (collaborator c s) = visit_log s"
  by (cases "(c, s)" rule: collaborator.cases)
     (auto simp: all_tasks_completed_def Let_def split: option.splits prod.splits)

lemma visit_log_evacuate_object [simp]: "visit_log (evacuate_object p s) = visit_log s"
  by (simp add: evacuate_object_def split: option.splits list.splits)

lemma calls_simps [simp]:
  "calls [] x = False"
  "calls (i # p) x = (may_call i x \<or> calls p x)"
  "calls (p @ q) x = (calls p x \<or> calls q x)"
  by (auto simp: calls_def)

lemma act_log:
  assumes "act w i pll s = (pll', s', pre)"
  shows "\<exists>new. visit_log s' = visit_log s @ new
               \<and> (\<forall>e\<in>set new. fst e = w \<and> may_call i (snd e))
               \<and> (\<forall>x. calls pre x \<longrightarrow> may_call i x)"
proof (cases i)
  case (When c body)
  with assms show ?thesis
    by (cases c) (auto simp: is_task_claimed_def calls_def split: prod.splits if_splits)
next
  case (While_om_parallel_oops_do f)
  with assms show ?thesis
    by (auto simp: parallel_oops_do_def split: prod.splits if_splits)
next
  case Evacuate_pll
  with assms show ?thesis by (auto split: option.splits)
qed (use assms in \<open>auto split: if_splits\<close>)

lemma exec_log:
  "\<exists>new. visit_log (snd (exec w p (pll, s))) = visit_log s @ new
         \<and> (\<forall>e\<in>set new. fst e = w \<and> calls p (snd e))"
proof (induction w p "(pll, s)" arbitrary: pll s rule: exec.induct)
  case (1 w pll s)
  show ?case by simp
next
  case (2 w i rest pll s)
  show ?case
  proof (cases "fatal s = None")
    case True
    obtain pll' s' pre where a: "act w i pll s = (pll', s', pre)"
      by (cases "act w i pll s") auto
    have nf: "\<not> fatal s \<noteq> None" using True by simp
    from 2 [OF nf a [symmetric] refl] obtain n2 where
      n2: "visit_log (snd (exec w (pre @ rest) (pll', s'))) = visit_log s' @ n2"
          "\<forall>e\<in>set n2. fst e = w \<and> calls (pre @ rest) (snd e)" by blast
    from act_log [OF a] obtain n1 where
      n1: "visit_log s' = visit_log s @ n1" "\<forall>e\<in>set n1. fst e = w \<and> may_call i (snd e)"
          "\<forall>x. calls pre x \<longrightarrow> may_call i x" by blast
    have "visit_log (snd (exec w (i # rest) (pll, s))) = visit_log s @ (n1 @ n2)"
      using True a n1 n2 by (simp add: exec_Cons)
    moreover have "\<forall>e\<in>set (n1 @ n2). fst e = w \<and> calls (i # rest) (snd e)"
      using n1 n2 by auto
    ultimately show ?thesis by blast
  next
    case False
    then show ?thesis by (simp add: exec_fatal)
  qed
qed

lemma exec_new_calls:
  assumes "e \<in> set (new_calls s (snd (exec w p (pll, s))))"
  shows "fst e = w \<and> calls p (snd e)"
  using exec_log [of w p pll s] assms by (auto simp: new_calls_def)

lemma step_log:
  assumes "step w wk s = (wk', s')"
  shows "\<exists>new. visit_log s' = visit_log s @ new
               \<and> (\<forall>e\<in>set new. fst e = w \<and> calls (todo wk) (snd e))
               \<and> (\<forall>x. calls (todo wk') x \<longrightarrow> calls (todo wk) x)"
proof (cases "todo wk")
  case Nil
  with assms show ?thesis by (simp add: step_def)
next
  case (Cons i rest)
  show ?thesis
  proof (cases "fatal s = None")
    case True
    obtain pll' s1 pre where a: "act w i (pll_reg wk) s = (pll', s1, pre)"
      by (cases "act w i (pll_reg wk) s") auto
    with assms Cons True have eq: "wk' = \<lparr>pll_reg = pll', todo = pre @ rest\<rparr>" "s' = s1"
      by (auto simp: step_def)
    from act_log [OF a] eq Cons show ?thesis by auto
  next
    case False
    with assms Cons show ?thesis by (auto simp: step_def)
  qed
qed

lemma sched_step_log:
  assumes "sched_step w (pool, s) = (pool', s')"
  shows "length pool' = length pool
         \<and> (\<forall>k<length pool. \<forall>x. calls (todo (pool' ! k)) x \<longrightarrow> calls (todo (pool ! k)) x)
         \<and> (\<exists>new. visit_log s' = visit_log s @ new
                  \<and> (\<forall>e\<in>set new. fst e < length pool \<and> calls (todo (pool ! fst e)) (snd e)))"
proof (cases "w < length pool")
  case True
  obtain wk' s1 where st: "step w (pool ! w) s = (wk', s1)"
    by (cases "step w (pool ! w) s") auto
  with assms True have eq: "pool' = pool[w := wk']" "s' = s1\<lparr>clock := Suc (clock s1)\<rparr>"
    by (auto simp: sched_step_def)
  from step_log [OF st] obtain new where
    new: "visit_log s1 = visit_log s @ new" "\<forall>e\<in>set new. fst e = w \<and> calls (todo (pool ! w)) (snd e)"
         "\<forall>x. calls (todo wk') x \<longrightarrow> calls (todo (pool ! w)) x" by blast
  have "\<forall>k<length pool. \<forall>x. calls (todo (pool' ! k)) x \<longrightarrow> calls (todo (pool ! k)) x"
  proof (intro allI impI)
    fix k x assume k: "k < length pool" and c: "calls (todo (pool' ! k)) x"
    show "calls (todo (pool ! k)) x"
    proof (cases "k = w")
      case True
      with k c eq new(3) show ?thesis by simp
    next
      case False
      with k c eq show ?thesis by simp
    qed
  qed
  moreover have "visit_log s' = visit_log s @ new" using new eq by simp
  moreover have "\<forall>e\<in>set new. fst e < length pool \<and> calls (todo (pool ! fst e)) (snd e)"
    using new(2) True by auto
  ultimately show ?thesis using eq by auto
next
  case False
  with assms show ?thesis by (auto simp: sched_step_def)
qed

lemma run_log:
  assumes "run sched (pool, s) = (pool', s')"
  shows "length pool' = length pool
         \<and> (\<forall>k<length pool. \<forall>x. calls (todo (pool' ! k)) x \<longrightarrow> calls (todo (pool ! k)) x)
         \<and> (\<exists>new. visit_log s' = visit_log s @ new
                  \<and> (\<forall>e\<in>set new. fst e < length pool \<and> calls (todo (pool ! fst e)) (snd e)))"
  using assms
proof (induction sched arbitrary: pool s)
  case Nil
  then show ?case by simp
next
  case (Cons w ws)
  obtain p1 s1 where st: "sched_step w (pool, s) = (p1, s1)"
    by (cases "sched_step w (pool, s)") auto
  with Cons.prems have r: "run ws (p1, s1) = (pool', s')" by simp
  from sched_step_log [OF st] obtain n1 where
    a: "length p1 = length pool"
       "\<forall>k<length pool. \<forall>x. calls (todo (p1 ! k)) x \<longrightarrow> calls (todo (pool ! k)) x"
       "visit_log s1 = visit_log s @ n1"
       "\<forall>e\<in>set n1. fst e < length pool \<and> calls (todo (pool ! fst e)) (snd e)" by blast
  from Cons.IH [OF r] obtain n2 where
    b: "length pool' = length p1"
       "\<forall>k<length p1. \<forall>x. calls (todo (pool' ! k)) x \<longrightarrow> calls (todo (p1 ! k)) x"
       "visit_log s' = visit_log s1 @ n2"
       "\<forall>e\<in>set n2. fst e < length p1 \<and> calls (todo (p1 ! fst e)) (snd e)" by blast
  have "visit_log s' = visit_log s @ (n1 @ n2)" using a b by simp
  moreover have "\<forall>e\<in>set (n1 @ n2). fst e < length pool \<and> calls (todo (pool ! fst e)) (snd e)"
    using a b by auto
  ultimately show ?case using a b by (intro conjI exI [of _ "n1 @ n2"]) auto
qed

lemma gang_new_calls:
  assumes "e \<in> set (new_calls s (snd (run sched (gang body n, s))))"
  shows "fst e < n \<and> calls (body (fst e)) (snd e)"
proof -
  obtain pool' s' where r: "run sched (gang body n, s) = (pool', s')"
    by (cases "run sched (gang body n, s)") auto
  from run_log [OF r] obtain new where
    new: "visit_log s' = visit_log s @ new"
         "\<forall>e\<in>set new. fst e < length (gang body n) \<and> calls (todo (gang body n ! fst e)) (snd e)"
    by blast
  from assms r new(1) have "e \<in> set new" by (simp add: new_calls_def)
  with new(2) have "fst e < length (gang body n)" "calls (todo (gang body n ! fst e)) (snd e)"
    by auto
  then show ?thesis by (simp_all add: gang_def)
qed

subsection \<open>Thread closures are not implemented for strong roots\<close>

text \<open>
  Claim C9, amended. The \<open>assert(thread_cl == NULL, "not implemented yet")\<close> of
  \<open>process_strong_roots\<close> is tested in a debug build only. There a call with a thread
  closure stops on the assertion before any root is visited. In a product build the
  assertion is compiled out and nothing else reads the thread closure
  (\<open>process_java_roots\<close> receives it and ignores it): the call does exactly what the
  call with a NULL thread closure does.
\<close>

theorem process_strong_roots_thread_cl:
  assumes "fatal s = None" "thread_cl \<noteq> None"
  shows "exec w (process_strong_roots oops clds blobs thread_cl w) (pll, s) =
         (if debug_build s then (pll, s\<lparr>fatal := Some ''not implemented yet''\<rparr>)
          else exec w (process_strong_roots oops clds blobs None w) (pll, s))"
  using assms by (simp add: process_strong_roots_def process_java_roots_def exec_Assert)

theorem process_strong_roots_thread_cl_witness:
  "fatal vm_example = None \<and> fatal product_example = None \<and> Some (ThreadClosure 0) \<noteq> None \<and>
   debug_build vm_example \<and> \<not> debug_build product_example \<and>
   exec 0 (process_strong_roots (Some (OopClosure 1)) None None (Some (ThreadClosure 0)) 0)
     (None, vm_example) = (None, vm_example\<lparr>fatal := Some ''not implemented yet''\<rparr>) \<and>
   exec 0 (process_strong_roots (Some (OopClosure 1)) None None (Some (ThreadClosure 0)) 0)
     (None, product_example) =
   exec 0 (process_strong_roots (Some (OopClosure 1)) None None None 0) (None, product_example)"
proof -
  have h: "fatal vm_example = None" "fatal product_example = None"
    by (simp_all add: vm_example_def product_example_def)
  have d: "debug_build vm_example" "\<not> debug_build product_example"
    by (simp_all add: vm_example_def product_example_def)
  show ?thesis
    using h d
      process_strong_roots_thread_cl [OF h(1), of "Some (ThreadClosure 0)" 0 "Some (OopClosure 1)" None None None]
      process_strong_roots_thread_cl [OF h(2), of "Some (ThreadClosure 0)" 0 "Some (OopClosure 1)" None None None]
    by simp
qed

text \<open>
  Claim C9 as stated fails: in a product build a call with a thread closure does not
  stop. Worker 0 visits the class loaders, the threads, the six claimed sources and
  the two chunks of the monitor table, and reports its tasks completed.
\<close>

theorem process_strong_roots_product_counterexample:
  "fatal product_example = None \<and> Some (ThreadClosure 0) \<noteq> None \<and>
   exec 0 (process_strong_roots (Some (OopClosure 1)) (Some (CLDClosure 2)) (Some (CodeBlobClosure 3))
             (Some (ThreadClosure 0)) 0) (None, product_example) =
   (None, product_example
      \<lparr>tasks := {SHENANDOAH_RP_PS_Universe_oops_do, SHENANDOAH_RP_PS_JNIHandles_oops_do,
                 SHENANDOAH_RP_PS_FlatProfiler_oops_do, SHENANDOAH_RP_PS_Management_oops_do,
                 SHENANDOAH_RP_PS_jvmti_oops_do, SHENANDOAH_RP_PS_SystemDictionary_oops_do},
       threads_completed := 1, om_cursor := 2,
       visit_log :=
         [(0, ClassLoaderDataGraph_roots_cld_do (Some (CLDClosure 2)) None),
          (0, Threads_possibly_parallel_oops_do (Some (OopClosure 1)) (Some (CLDClosure 2)) (Some (CodeBlobClosure 3))),
          (0, Universe_oops_do (Some (OopClosure 1))),
          (0, JNIHandles_oops_do (Some (OopClosure 1))),
          (0, FlatProfiler_oops_do (Some (OopClosure 1))),
          (0, Management_oops_do (Some (OopClosure 1))),
          (0, JvmtiExport_oops_do (Some (OopClosure 1))),
          (0, SystemDictionary_roots_oops_do (Some (OopClosure 1)) None),
          (0, ShenandoahSynchronizerIterator_parallel_oops_do (Some (OopClosure 1))),
          (0, ShenandoahSynchronizerIterator_parallel_oops_do (Some (OopClosure 1))),
          (0, SubTasksDone_all_tasks_completed)]\<rparr>)"
  by (simp add: product_example_def vm_example_def process_strong_roots_def process_java_roots_def
      root_cld_do_def process_vm_roots_def exec_simps is_task_claimed_def parallel_oops_do_def
      all_tasks_completed_def drain_def eval_nat_numeral insert_commute)

subsection \<open>The calls of a worker that runs alone\<close>

lemma exec_guards:
  assumes "fatal s = None" "distinct (map fst tcs)" "\<forall>(t, c)\<in>set tcs. \<forall>s. collaborator c s = s"
  shows "exec w (guards tcs @ rest) (pll, s) =
         exec w rest
           (pll, s\<lparr>tasks := tasks s \<union> fst ` set tcs,
                    visit_log := visit_log s @ map (Pair w) (unclaimed (tasks s) tcs)\<rparr>)"
  using assms
proof (induction tcs arbitrary: s)
  case Nil
  then show ?case by (simp add: guards_def unclaimed_def)
next
  case (Cons tc tcs)
  obtain t c where tc: "tc = (t, c)" by (cases tc)
  let ?s1 = "s\<lparr>tasks := insert t (tasks s),
                visit_log := visit_log s @ (if t \<in> tasks s then [] else [(w, c)])\<rparr>"
  have c: "\<And>s. collaborator c s = s" using Cons.prems tc by auto
  have t: "t \<notin> fst ` set tcs" using Cons.prems tc by auto
  have u: "unclaimed (insert t (tasks s)) tcs = unclaimed (tasks s) tcs"
    unfolding unclaimed_def using t
    by (intro arg_cong [where f = "map snd"] filter_cong) (auto simp: image_iff)
  have "exec w (guards (tc # tcs) @ rest) (pll, s) = exec w (guards tcs @ rest) (pll, ?s1)"
    using Cons.prems(1) c by (simp add: guards_def tc exec_simps is_task_claimed_def)
  also have "\<dots> = exec w rest
      (pll, ?s1\<lparr>tasks := tasks ?s1 \<union> fst ` set tcs,
                visit_log := visit_log ?s1 @ map (Pair w) (unclaimed (tasks ?s1) tcs)\<rparr>)"
    using Cons.prems by (intro Cons.IH) auto
  also have "?s1\<lparr>tasks := tasks ?s1 \<union> fst ` set tcs,
                visit_log := visit_log ?s1 @ map (Pair w) (unclaimed (tasks ?s1) tcs)\<rparr>
      = s\<lparr>tasks := tasks s \<union> fst ` set (tc # tcs),
           visit_log := visit_log s @ map (Pair w) (unclaimed (tasks s) (tc # tcs))\<rparr>"
    using u by (simp add: tc unclaimed_def)
  finally show ?case .
qed

lemma process_vm_roots_guards:
  "process_vm_roots strong_roots weak_roots is_alive w =
     guards (vm_singletons strong_roots weak_roots @ vm_weak_singletons weak_roots is_alive)
     @ [When StringDedup_is_enabled
          (if weak_roots \<noteq> None
           then [Call (ShenandoahStringDedup_parallel_oops_do weak_roots)]
           else [])]
     @ [While_om_parallel_oops_do strong_roots]
     @ (if weak_roots \<noteq> None
        then [Call (StringTable_possibly_parallel_unlink_or_oops_do is_alive weak_roots 0 0)]
        else [])"
  by (simp add: process_vm_roots_def guards_def vm_singletons_def vm_weak_singletons_def)

lemma process_evacuate_roots_guards:
  "process_evacuate_roots oops blobs w =
     [Assert_is_evacuation_in_progress,
      Load_pending_list_lock,
      When pll_in_collection_set [When pll_not_forwarded [Evacuate_pll]],
      Call (ClassLoaderDataGraph_roots_cld_do (Some (CLDToOopClosure oops)) (Some (CLDToOopClosure oops))),
      Call (Threads_possibly_parallel_oops_do oops None None)]
     @ (if blobs \<noteq> None
        then [Call (ShenandoahCsetCodeRootsIterator_possibly_parallel_blobs_do blobs)]
        else [])
     @ guards (evac_singletons oops)
     @ [When StringDedup_is_enabled [Call (ShenandoahStringDedup_parallel_oops_do oops)],
        While_om_parallel_oops_do oops,
        Call (StringTable_possibly_parallel_oops_do oops)]"
  by (simp add: process_evacuate_roots_def guards_def evac_singletons_def root_cld_do_def Let_def)

lemma fatal_evacuate_object [simp]: "fatal (evacuate_object p s) = fatal s"
  by (simp add: evacuate_object_def split: option.splits list.splits)

lemma tasks_evacuate_object [simp]: "tasks (evacuate_object p s) = tasks s"
  by (simp add: evacuate_object_def split: option.splits list.splits)

lemma dedup_enabled_evacuate_object [simp]: "dedup_enabled (evacuate_object p s) = dedup_enabled s"
  by (simp add: evacuate_object_def split: option.splits list.splits)

lemma om_evacuate_object [simp]:
  "om_cursor (evacuate_object p s) = om_cursor s" "om_chunks (evacuate_object p s) = om_chunks s"
  by (simp_all add: evacuate_object_def split: option.splits list.splits)

lemma process_evacuate_roots_log:
  assumes "fatal s = None" "evacuation_in_progress s"
  shows "new_calls s (snd (exec w (process_evacuate_roots oops blobs w) (pll, s))) =
         map (Pair w)
          (pll_attempt s
           @ [ClassLoaderDataGraph_roots_cld_do (Some (CLDToOopClosure oops)) (Some (CLDToOopClosure oops)),
              Threads_possibly_parallel_oops_do oops None None]
           @ (if blobs \<noteq> None
              then [ShenandoahCsetCodeRootsIterator_possibly_parallel_blobs_do blobs] else [])
           @ unclaimed (tasks s) (evac_singletons oops)
           @ (if dedup_enabled s then [ShenandoahStringDedup_parallel_oops_do oops] else [])
           @ replicate (om_chunks s - om_cursor s) (ShenandoahSynchronizerIterator_parallel_oops_do oops)
           @ [StringTable_possibly_parallel_oops_do oops])"
proof -
  have d: "distinct (map fst (evac_singletons oops))"
    "\<forall>(t, c)\<in>set (evac_singletons oops). \<forall>s. collaborator c s = s"
    by (simp_all add: evac_singletons_def)
  show ?thesis
    using assms
    by (simp add: process_evacuate_roots_guards exec_simps exec_guards [OF _ d] new_calls_def
        pll_attempt_def drain_def split: option.splits)
qed

lemma process_vm_roots_log:
  assumes "fatal s = None"
  shows "new_calls s (snd (exec w (process_vm_roots strong_roots weak_roots is_alive w) (pll, s))) =
         map (Pair w)
          (unclaimed (tasks s) (vm_singletons strong_roots weak_roots @ vm_weak_singletons weak_roots is_alive)
           @ (if dedup_enabled s \<and> weak_roots \<noteq> None
              then [ShenandoahStringDedup_parallel_oops_do weak_roots] else [])
           @ replicate (om_chunks s - om_cursor s) (ShenandoahSynchronizerIterator_parallel_oops_do strong_roots)
           @ (if weak_roots \<noteq> None
              then [StringTable_possibly_parallel_unlink_or_oops_do is_alive weak_roots 0 0] else []))"
proof -
  have d: "distinct (map fst (vm_singletons strong_roots weak_roots @ vm_weak_singletons weak_roots is_alive))"
    "\<forall>(t, c)\<in>set (vm_singletons strong_roots weak_roots @ vm_weak_singletons weak_roots is_alive).
        \<forall>s. collaborator c s = s"
    by (simp_all add: vm_singletons_def vm_weak_singletons_def)
  show ?thesis
    using assms
    by (simp add: process_vm_roots_guards exec_simps exec_guards [OF _ d] new_calls_def
        drain_def del: collaborator.simps(1))
qed

subsection \<open>Weak sources and the monitor table in \<open>process_vm_roots\<close>\<close>

lemma set_unclaimed: "set (unclaimed T tcs) \<subseteq> snd ` set tcs"
  by (auto simp: unclaimed_def)

lemma filter_all: "\<forall>x\<in>set xs. P x \<Longrightarrow> filter P xs = xs"
  by (induction xs) auto

lemma filter_none: "\<forall>x\<in>set xs. \<not> P x \<Longrightarrow> filter P xs = []"
  by (induction xs) auto

lemma unclaimed_vm_not_weak_only:
  "x \<in> set (unclaimed T (vm_singletons strong_roots weak_roots @ vm_weak_singletons None is_alive))
   \<Longrightarrow> \<not> weak_only x \<and> \<not> monitor_table x"
  using set_unclaimed [of T "vm_singletons strong_roots weak_roots @ vm_weak_singletons None is_alive"]
  by (auto simp: vm_singletons_def vm_weak_singletons_def)

lemma unclaimed_vm_not_monitor:
  "x \<in> set (unclaimed T (vm_singletons strong_roots weak_roots @ vm_weak_singletons weak_roots is_alive))
   \<Longrightarrow> \<not> monitor_table x"
  using set_unclaimed [of T "vm_singletons strong_roots weak_roots @ vm_weak_singletons weak_roots is_alive"]
  by (auto simp: vm_singletons_def vm_weak_singletons_def split: if_splits)

text \<open>
  Claim C3, amended. With a NULL weak closure \<open>process_vm_roots\<close> visits none of the weak
  native handles, the deduplication table and the intern table. The monitor table is
  not one of the weak sources: whatever the weak closure is, the worker drains the
  chunks that are left, with the strong closure.
\<close>

theorem process_vm_roots_weak_sources:
  assumes "fatal s = None"
  shows "(let lg = new_calls s (snd (exec w (process_vm_roots strong_roots weak_roots is_alive w) (pll, s)))
          in (weak_roots = None \<longrightarrow> (\<forall>e\<in>set lg. \<not> weak_only (snd e)))
             \<and> filter (\<lambda>e. monitor_table (snd e)) lg =
                 replicate (om_chunks s - om_cursor s)
                   (w, ShenandoahSynchronizerIterator_parallel_oops_do strong_roots))"
proof -
  let ?U = "unclaimed (tasks s) (vm_singletons strong_roots weak_roots @ vm_weak_singletons weak_roots is_alive)"
  have m: "filter monitor_table ?U = []"
    by (intro filter_none ballI) (use unclaimed_vm_not_monitor in blast)
  have r: "filter monitor_table (replicate n (ShenandoahSynchronizerIterator_parallel_oops_do strong_roots))
           = replicate n (ShenandoahSynchronizerIterator_parallel_oops_do strong_roots)" for n
    by (intro filter_all) simp
  have 1: "weak_roots = None \<Longrightarrow>
           \<forall>e\<in>set (new_calls s (snd (exec w (process_vm_roots strong_roots weak_roots is_alive w) (pll, s)))).
             \<not> weak_only (snd e)"
    using unclaimed_vm_not_weak_only [of _ "tasks s" strong_roots None is_alive]
    by (auto simp: process_vm_roots_log [OF assms])
  have 2: "filter (\<lambda>e. monitor_table (snd e))
             (new_calls s (snd (exec w (process_vm_roots strong_roots weak_roots is_alive w) (pll, s))))
           = replicate (om_chunks s - om_cursor s)
               (w, ShenandoahSynchronizerIterator_parallel_oops_do strong_roots)"
    by (simp add: process_vm_roots_log [OF assms] filter_map comp_def m r)
  from 1 2 show ?thesis by (simp add: Let_def)
qed

theorem process_vm_roots_weak_sources_witness:
  "fatal vm_example = None \<and>
   new_calls vm_example
     (snd (exec 0 (process_vm_roots (Some (OopClosure 1)) None None 0) (None, vm_example)))
   = map (Pair 0)
      [Universe_oops_do (Some (OopClosure 1)),
       JNIHandles_oops_do (Some (OopClosure 1)),
       FlatProfiler_oops_do (Some (OopClosure 1)),
       Management_oops_do (Some (OopClosure 1)),
       JvmtiExport_oops_do (Some (OopClosure 1)),
       SystemDictionary_roots_oops_do (Some (OopClosure 1)) None,
       ShenandoahSynchronizerIterator_parallel_oops_do (Some (OopClosure 1)),
       ShenandoahSynchronizerIterator_parallel_oops_do (Some (OopClosure 1))]"
proof -
  have h: "fatal vm_example = None" by (simp add: vm_example_def)
  have e: "tasks vm_example = {}" "om_chunks vm_example = 2" "om_cursor vm_example = 0"
    "dedup_enabled vm_example = False"
    by (simp_all add: vm_example_def)
  show ?thesis
    using h process_vm_roots_weak_sources [OF h, of 0 "Some (OopClosure 1)" None None None]
    by (simp add: process_vm_roots_log [OF h] e unclaimed_def vm_singletons_def
        vm_weak_singletons_def numeral_2_eq_2)
qed

text \<open>
  Claim C3 as stated fails: with a NULL weak closure the monitor table is still
  visited, here by worker 0 with the strong closure.
\<close>

theorem process_vm_roots_null_weak_counterexample:
  "(0, ShenandoahSynchronizerIterator_parallel_oops_do (Some (OopClosure 1)))
     \<in> set (new_calls vm_example
          (snd (exec 0 (process_vm_roots (Some (OopClosure 1)) None None 0) (None, vm_example))))
   \<and> monitor_table (ShenandoahSynchronizerIterator_parallel_oops_do (Some (OopClosure 1)))"
proof -
  have h: "fatal vm_example = None" by (simp add: vm_example_def)
  have e: "tasks vm_example = {}" "om_chunks vm_example = 2" "om_cursor vm_example = 0"
    "dedup_enabled vm_example = False"
    by (simp_all add: vm_example_def)
  show ?thesis
    by (simp add: process_vm_roots_log [OF h] e)
qed

subsection \<open>Each claimed singleton is visited once by the whole gang\<close>

lemma quiet_not_owed: "quiet t nm i \<Longrightarrow> \<not> owed nm i"
  by (cases i) auto

lemma quiet_not_guarded: "quiet t nm i \<Longrightarrow> \<not> guarded t nm i"
  by (cases i) auto

lemma quiet_owed: "list_all (quiet t nm) p \<Longrightarrow> filter (owed nm) p = []"
  by (induction p) (auto dest: quiet_not_owed)

lemma quiet_tidy: "list_all (quiet t nm) p \<Longrightarrow> list_all (tidy t nm) p"
  by (induction p) (auto simp: tidy_def)

lemma tasks_collaborator [simp]: "tasks (collaborator c s) = tasks s"
  by (cases "(c, s)" rule: collaborator.cases)
     (auto simp: all_tasks_completed_def Let_def split: option.splits prod.splits)

lemma visits_append [simp]: "visits nm (xs @ ys) = visits nm xs + visits nm ys"
  by (simp add: visits_def)

lemma act_claim:
  assumes "tidy t nm i" "act w i pll s = (pll', s', pre)"
  shows "list_all (tidy t nm) pre
         \<and> visits nm (visit_log s') + length (filter (owed nm) pre) + (if t \<in> tasks s then 1 else 0)
             = visits nm (visit_log s) + length (filter (owed nm) [i]) + (if t \<in> tasks s' then 1 else 0)
         \<and> (t \<in> tasks s \<longrightarrow> t \<in> tasks s')
         \<and> (t \<notin> tasks s' \<longrightarrow> \<not> guarded t nm i)
         \<and> \<not> list_ex (guarded t nm) pre"
proof -
  consider (call) "owed nm i" | (guard) "guarded t nm i" | (quiet) "quiet t nm i"
    using assms(1) by (auto simp: tidy_def)
  then show ?thesis
  proof cases
    case call
    then obtain c where "i = Call c" "callee c = nm" by (cases i) auto
    with assms(2) show ?thesis by (auto simp: visits_def)
  next
    case guard
    then obtain c where "i = When (not_is_task_claimed t) [Call c]" "callee c = nm"
    proof (cases i)
      case (When cd body)
      with guard have cd: "cd = not_is_task_claimed t" and l: "length body = 1"
        and o: "list_all (owed nm) body" by auto
      from l obtain j where b: "body = [j]" by (cases body) auto
      with o obtain c where "j = Call c" "callee c = nm" by (cases j) auto
      with When cd b that show ?thesis by simp
    qed auto
    with assms(2) show ?thesis
      by (auto simp: visits_def is_task_claimed_def tidy_def split: if_splits)
  next
    case quiet
    show ?thesis
    proof (cases i)
      case (When cd body)
      with quiet have cd: "cd \<noteq> not_is_task_claimed t" and b: "list_all (quiet t nm) body" by auto
      have pre: "pre = body \<or> pre = []" and lg: "visit_log s' = visit_log s"
        and tk: "t \<in> tasks s' \<longleftrightarrow> t \<in> tasks s"
        using assms(2) When cd
        by (cases cd; auto simp: is_task_claimed_def split: if_splits prod.splits)+
      from pre b have q: "list_all (quiet t nm) pre" by auto
      have ng: "\<not> list_ex (guarded t nm) pre"
        using q quiet_not_guarded by (auto simp: list_all_iff list_ex_iff)
      from q lg tk ng When cd show ?thesis
        by (auto simp: quiet_owed quiet_tidy)
    next
      case (Call c')
      with quiet assms(2) show ?thesis by (auto simp: visits_def)
    next
      case (While_om_parallel_oops_do f)
      with quiet assms(2) show ?thesis
        by (auto simp: visits_def parallel_oops_do_def tidy_def split: if_splits)
    next
      case Evacuate_pll
      with quiet assms(2) show ?thesis
        by (auto simp: visits_def split: option.splits)
    qed (use assms(2) in \<open>auto split: if_splits\<close>)
  qed
qed

lemma step_claim:
  assumes "list_all (tidy t nm) (todo wk)" "step w wk s = (wk', s')"
  shows "list_all (tidy t nm) (todo wk')
         \<and> visits nm (visit_log s') + length (filter (owed nm) (todo wk')) + (if t \<in> tasks s then 1 else 0)
             = visits nm (visit_log s) + length (filter (owed nm) (todo wk)) + (if t \<in> tasks s' then 1 else 0)
         \<and> (t \<in> tasks s \<longrightarrow> t \<in> tasks s')
         \<and> (t \<notin> tasks s' \<longrightarrow> list_ex (guarded t nm) (todo wk)
               \<longrightarrow> list_ex (guarded t nm) (todo wk'))"
proof (cases "todo wk")
  case Nil
  with assms show ?thesis by (simp add: step_def)
next
  case (Cons i rest)
  show ?thesis
  proof (cases "fatal s = None")
    case True
    obtain pll' s1 pre where a: "act w i (pll_reg wk) s = (pll', s1, pre)"
      by (cases "act w i (pll_reg wk) s") auto
    with assms Cons True have eq: "todo wk' = pre @ rest" "s' = s1"
      by (auto simp: step_def)
    from assms(1) Cons have ti: "tidy t nm i" and tr: "list_all (tidy t nm) rest" by auto
    from act_claim [OF ti a] eq tr Cons show ?thesis by auto
  next
    case False
    with assms Cons show ?thesis by (auto simp: step_def)
  qed
qed

lemma pending_update:
  "w < length pool \<Longrightarrow>
   pending nm (pool[w := wk']) + length (filter (owed nm) (todo (pool ! w)))
     = pending nm pool + length (filter (owed nm) (todo wk'))"
  unfolding pending_def
proof (induction pool arbitrary: w)
  case Nil
  then show ?case by simp
next
  case (Cons x xs)
  then show ?case by (cases w) auto
qed

lemma sched_step_claim:
  assumes "claim_inv t nm k (pool, s)"
  shows "claim_inv t nm k (sched_step w (pool, s))"
proof (cases "w < length pool")
  case True
  let ?G = "\<lambda>wk. list_ex (guarded t nm) (todo wk)"
  obtain wk' s1 where st: "step w (pool ! w) s = (wk', s1)"
    by (cases "step w (pool ! w) s") auto
  from assms have tidy: "list_all (\<lambda>wk. list_all (tidy t nm) (todo wk)) pool"
    and cnt: "visits nm (visit_log s) + pending nm pool = k + (if t \<in> tasks s then 1 else 0)"
    and grd: "t \<in> tasks s \<or> list_all ?G pool"
    by (auto simp: claim_inv_def)
  from tidy True have tw: "list_all (tidy t nm) (todo (pool ! w))"
    by (auto simp: list_all_length)
  from step_claim [OF tw st] have
    1: "list_all (tidy t nm) (todo wk')"
    and 2: "visits nm (visit_log s1) + length (filter (owed nm) (todo wk')) + (if t \<in> tasks s then 1 else 0)
             = visits nm (visit_log s) + length (filter (owed nm) (todo (pool ! w))) + (if t \<in> tasks s1 then 1 else 0)"
    and 3: "t \<in> tasks s \<longrightarrow> t \<in> tasks s1"
    and 4: "t \<notin> tasks s1 \<longrightarrow> ?G (pool ! w) \<longrightarrow> ?G wk'"
    by blast+
  have a: "list_all (\<lambda>wk. list_all (tidy t nm) (todo wk)) (pool[w := wk'])"
    using tidy 1 True by (auto simp: list_all_length nth_list_update)
  have b: "visits nm (visit_log s1) + pending nm (pool[w := wk']) = k + (if t \<in> tasks s1 then 1 else 0)"
    using 2 cnt pending_update [OF True, of nm wk'] by (auto split: if_splits)
  have c: "t \<in> tasks s1 \<or> list_all ?G (pool[w := wk'])"
  proof (cases "t \<in> tasks s1")
    case False
    with 3 grd have all: "list_all ?G pool" by auto
    with True have "?G (pool ! w)" by (auto simp: list_all_length)
    with 4 False have "?G wk'" by simp
    with all True show ?thesis by (auto simp: list_all_length nth_list_update)
  qed simp
  from a b c st True show ?thesis
    by (simp add: claim_inv_def sched_step_def)
next
  case False
  with assms show ?thesis by (simp add: sched_step_def)
qed

lemma run_claim:
  "claim_inv t nm k cfg \<Longrightarrow> claim_inv t nm k (run sched cfg)"
proof (induction sched arbitrary: cfg)
  case Nil
  then show ?case by simp
next
  case (Cons w ws)
  obtain pool s where cfg: "cfg = (pool, s)" by (cases cfg)
  from Cons.prems have "claim_inv t nm k (sched_step w cfg)"
    unfolding cfg by (rule sched_step_claim)
  then show ?case by (simp add: Cons.IH)
qed

lemma gang_claim_inv:
  assumes "\<forall>w. claims_once t nm (body w)" "t \<notin> tasks s"
  shows "claim_inv t nm (visits nm (visit_log s)) (gang body n, s)"
  using assms by (auto simp: claim_inv_def gang_def pending_def claims_once_def list_all_iff
      intro!: sum_list_0)

lemma claim_inv_done:
  assumes "claim_inv t nm k (pool, s)" "all_done pool" "pool \<noteq> []"
  shows "visits nm (visit_log s) = Suc k"
proof -
  from assms(2) have "pending nm pool = 0"
    by (auto simp: all_done_def pending_def list_all_iff intro!: sum_list_0)
  moreover from assms(2,3) have "\<not> list_all (\<lambda>wk. list_ex (guarded t nm) (todo wk)) pool"
    by (cases pool) (auto simp: all_done_def)
  ultimately show ?thesis using assms(1) by (auto simp: claim_inv_def split: if_splits)
qed

lemma gang_visited_once:
  assumes body: "\<forall>w. claims_once t nm (body w)" and t: "t \<notin> tasks s" and n: "1 \<le> n"
    and r: "run sched (gang body n, s) = (pool, s')" and d: "all_done pool"
  shows "visits nm (new_calls s s') = 1"
proof -
  from run_claim [OF gang_claim_inv [OF body t], of sched n] r
  have inv: "claim_inv t nm (visits nm (visit_log s)) (pool, s')" by simp
  from run_log [OF r] obtain new where
    len: "length pool = length (gang body n)" and new: "visit_log s' = visit_log s @ new" by auto
  from len n have "pool \<noteq> []" by (auto simp: gang_def)
  from claim_inv_done [OF inv d this] new show ?thesis
    by (simp add: new_calls_def)
qed

lemma process_vm_roots_claims_once:
  assumes "(t, nm) \<in> set vm_claimed"
  shows "claims_once t nm (process_vm_roots strong_roots weak_roots is_alive w)"
proof -
  from assms have "(t, nm) = (SHENANDOAH_RP_PS_Universe_oops_do, ''Universe::oops_do'')
      \<or> (t, nm) = (SHENANDOAH_RP_PS_JNIHandles_oops_do, ''JNIHandles::oops_do'')
      \<or> (t, nm) = (SHENANDOAH_RP_PS_FlatProfiler_oops_do, ''FlatProfiler::oops_do'')
      \<or> (t, nm) = (SHENANDOAH_RP_PS_Management_oops_do, ''Management::oops_do'')
      \<or> (t, nm) = (SHENANDOAH_RP_PS_jvmti_oops_do, ''JvmtiExport::oops_do'')
      \<or> (t, nm) = (SHENANDOAH_RP_PS_SystemDictionary_oops_do, ''SystemDictionary::roots_oops_do'')"
    by (simp add: vm_claimed_def)
  then show ?thesis
    by (elim disjE) (simp_all add: process_vm_roots_def claims_once_def tidy_def)
qed

lemma process_evacuate_roots_claims_once:
  assumes "(t, nm) \<in> set evac_claimed"
  shows "claims_once t nm (process_evacuate_roots oops blobs w)"
proof -
  from assms have "(t, nm) = (SHENANDOAH_EVAC_Universe_oops_do, ''Universe::oops_do'')
      \<or> (t, nm) = (SHENANDOAH_EVAC_JNIHandles_oops_do, ''JNIHandles::oops_do'')
      \<or> (t, nm) = (SHENANDOAH_EVAC_FlatProfiler_oops_do, ''FlatProfiler::oops_do'')
      \<or> (t, nm) = (SHENANDOAH_EVAC_Management_oops_do, ''Management::oops_do'')
      \<or> (t, nm) = (SHENANDOAH_EVAC_jvmti_oops_do, ''JvmtiExport::oops_do'')
      \<or> (t, nm) = (SHENANDOAH_EVAC_SystemDictionary_oops_do, ''SystemDictionary::oops_do'')
      \<or> (t, nm) = (SHENANDOAH_EVAC_JNIHandles_weak_oops_do, ''JNIHandles::weak_oops_do'')"
    by (simp add: evac_claimed_def)
  then show ?thesis
    by (elim disjE)
       (simp_all add: process_evacuate_roots_def claims_once_def tidy_def root_cld_do_def Let_def)
qed

lemma vm_claimed_singletons:
  "map (\<lambda>(t, c). (t, callee c)) (vm_singletons strong_roots weak_roots) = vm_claimed"
  by (simp add: vm_singletons_def vm_claimed_def)

lemma evac_claimed_singletons:
  "map (\<lambda>(t, c). (t, callee c)) (evac_singletons oops) = evac_claimed"
  by (simp add: evac_singletons_def evac_claimed_def)

subsection \<open>The example scans\<close>

lemma sched_step_eval:
  "w < length pool \<Longrightarrow> fatal s = None \<Longrightarrow> todo (pool ! w) = i # rest \<Longrightarrow>
   sched_step w (pool, s) =
     (case act w i (pll_reg (pool ! w)) s of
        (pll', s', pre) \<Rightarrow> (pool[w := \<lparr>pll_reg = pll', todo = pre @ rest\<rparr>], s'\<lparr>clock := Suc (clock s')\<rparr>))"
  by (simp add: sched_step_def step_def split: prod.splits)

lemma sched_step_done:
  "w < length pool \<Longrightarrow> todo (pool ! w) = [] \<Longrightarrow>
   sched_step w (pool, s) = (pool, s\<lparr>clock := Suc (clock s)\<rparr>)"
  by (simp add: sched_step_def step_def)

lemma gang_2:
  "gang body 2 = [\<lparr>pll_reg = None, todo = body 0\<rparr>, \<lparr>pll_reg = None, todo = body 1\<rparr>]"
  by (simp add: gang_def numeral_2_eq_2)

lemmas run_eval = sched_step_eval sched_step_done is_task_claimed_def parallel_oops_do_def
  evacuate_object_def resolve_forwarded_not_null_def gang_2 round_robin_def

lemma evac_example:
  "evac_example =
     ([\<lparr>pll_reg = Some 5, todo = []\<rparr>, \<lparr>pll_reg = Some 5, todo = []\<rparr>],
      vm_example
        \<lparr>tasks :=
           {SHENANDOAH_EVAC_JNIHandles_weak_oops_do, SHENANDOAH_EVAC_SystemDictionary_oops_do,
            SHENANDOAH_EVAC_jvmti_oops_do, SHENANDOAH_EVAC_Management_oops_do,
            SHENANDOAH_EVAC_FlatProfiler_oops_do, SHENANDOAH_EVAC_JNIHandles_oops_do,
            SHENANDOAH_EVAC_Universe_oops_do},
         om_cursor := 2, forwardee := [5 \<mapsto> 100], to_space := [101], relocated := [5],
         clock := 50, timings := [record_workers_start 7 0],
         visit_log :=
           [(0, ShenandoahHeap_evacuate_object 5),
            (1, ShenandoahHeap_evacuate_object 5),
            (0, ClassLoaderDataGraph_roots_cld_do (Some (CLDToOopClosure (Some (OopClosure 1))))
                  (Some (CLDToOopClosure (Some (OopClosure 1))))),
            (1, ClassLoaderDataGraph_roots_cld_do (Some (CLDToOopClosure (Some (OopClosure 1))))
                  (Some (CLDToOopClosure (Some (OopClosure 1))))),
            (0, Threads_possibly_parallel_oops_do (Some (OopClosure 1)) None None),
            (1, Threads_possibly_parallel_oops_do (Some (OopClosure 1)) None None),
            (0, ShenandoahCsetCodeRootsIterator_possibly_parallel_blobs_do (Some (CodeBlobClosure 2))),
            (1, ShenandoahCsetCodeRootsIterator_possibly_parallel_blobs_do (Some (CodeBlobClosure 2))),
            (0, Universe_oops_do (Some (OopClosure 1))),
            (1, JNIHandles_oops_do (Some (OopClosure 1))),
            (0, FlatProfiler_oops_do (Some (OopClosure 1))),
            (1, Management_oops_do (Some (OopClosure 1))),
            (0, JvmtiExport_oops_do (Some (OopClosure 1))),
            (1, SystemDictionary_oops_do (Some (OopClosure 1))),
            (0, JNIHandles_weak_oops_do (Some AlwaysTrueClosure) (Some (OopClosure 1))),
            (1, ShenandoahSynchronizerIterator_parallel_oops_do (Some (OopClosure 1))),
            (0, ShenandoahSynchronizerIterator_parallel_oops_do (Some (OopClosure 1))),
            (1, StringTable_possibly_parallel_oops_do (Some (OopClosure 1))),
            (0, StringTable_possibly_parallel_oops_do (Some (OopClosure 1)))]\<rparr>)"
  by (simp add: evac_example_def run_eval process_evacuate_roots_def root_cld_do_def Let_def
      vm_example_def ShenandoahRootEvacuator_def ParallelCLDRootIterator_def workers_start_def)

lemma evac_own_example:
  "evac_own_example =
     ([\<lparr>pll_reg = Some 5, todo = []\<rparr>, \<lparr>pll_reg = Some 5, todo = []\<rparr>],
      vm_example
        \<lparr>tasks :=
           {SHENANDOAH_EVAC_JNIHandles_weak_oops_do, SHENANDOAH_EVAC_SystemDictionary_oops_do,
            SHENANDOAH_EVAC_jvmti_oops_do, SHENANDOAH_EVAC_Management_oops_do,
            SHENANDOAH_EVAC_FlatProfiler_oops_do, SHENANDOAH_EVAC_JNIHandles_oops_do,
            SHENANDOAH_EVAC_Universe_oops_do},
         om_cursor := 2, forwardee := [5 \<mapsto> 100], to_space := [101], relocated := [5],
         clock := 50, timings := [record_workers_start 7 0],
         visit_log :=
           [(0, ShenandoahHeap_evacuate_object 5),
            (1, ShenandoahHeap_evacuate_object 5),
            (0, ClassLoaderDataGraph_roots_cld_do (Some (CLDToOopClosure (Some (OopClosure 0))))
                  (Some (CLDToOopClosure (Some (OopClosure 0))))),
            (1, ClassLoaderDataGraph_roots_cld_do (Some (CLDToOopClosure (Some (OopClosure 1))))
                  (Some (CLDToOopClosure (Some (OopClosure 1))))),
            (0, Threads_possibly_parallel_oops_do (Some (OopClosure 0)) None None),
            (1, Threads_possibly_parallel_oops_do (Some (OopClosure 1)) None None),
            (0, ShenandoahCsetCodeRootsIterator_possibly_parallel_blobs_do (Some (CodeBlobClosure 0))),
            (1, ShenandoahCsetCodeRootsIterator_possibly_parallel_blobs_do (Some (CodeBlobClosure 1))),
            (0, Universe_oops_do (Some (OopClosure 0))),
            (1, JNIHandles_oops_do (Some (OopClosure 1))),
            (0, FlatProfiler_oops_do (Some (OopClosure 0))),
            (1, Management_oops_do (Some (OopClosure 1))),
            (0, JvmtiExport_oops_do (Some (OopClosure 0))),
            (1, SystemDictionary_oops_do (Some (OopClosure 1))),
            (0, JNIHandles_weak_oops_do (Some AlwaysTrueClosure) (Some (OopClosure 0))),
            (1, ShenandoahSynchronizerIterator_parallel_oops_do (Some (OopClosure 1))),
            (0, ShenandoahSynchronizerIterator_parallel_oops_do (Some (OopClosure 0))),
            (1, StringTable_possibly_parallel_oops_do (Some (OopClosure 1))),
            (0, StringTable_possibly_parallel_oops_do (Some (OopClosure 0)))]\<rparr>)"
  by (simp add: evac_own_example_def run_eval process_evacuate_roots_def root_cld_do_def Let_def
      vm_example_def ShenandoahRootEvacuator_def ParallelCLDRootIterator_def workers_start_def)

lemma vm_roots_example:
  "vm_roots_example =
     ([\<lparr>pll_reg = None, todo = []\<rparr>, \<lparr>pll_reg = None, todo = []\<rparr>],
      vm_example
        \<lparr>tasks :=
           {SHENANDOAH_RP_PS_JNIHandles_weak_oops_do, SHENANDOAH_RP_PS_SystemDictionary_oops_do,
            SHENANDOAH_RP_PS_jvmti_oops_do, SHENANDOAH_RP_PS_Management_oops_do,
            SHENANDOAH_RP_PS_FlatProfiler_oops_do, SHENANDOAH_RP_PS_JNIHandles_oops_do,
            SHENANDOAH_RP_PS_Universe_oops_do},
         om_cursor := 2, clock := 50,
         visit_log :=
           [(0, Universe_oops_do (Some (OopClosure 0))),
            (1, JNIHandles_oops_do (Some (OopClosure 1))),
            (0, FlatProfiler_oops_do (Some (OopClosure 0))),
            (1, Management_oops_do (Some (OopClosure 1))),
            (0, JvmtiExport_oops_do (Some (OopClosure 0))),
            (1, SystemDictionary_roots_oops_do (Some (OopClosure 1)) (Some (OopClosure 11))),
            (0, JNIHandles_weak_oops_do (Some AlwaysTrueClosure) (Some (OopClosure 10))),
            (1, ShenandoahSynchronizerIterator_parallel_oops_do (Some (OopClosure 1))),
            (0, ShenandoahSynchronizerIterator_parallel_oops_do (Some (OopClosure 0))),
            (1, StringTable_possibly_parallel_unlink_or_oops_do (Some AlwaysTrueClosure) (Some (OopClosure 11)) 0 0),
            (0, StringTable_possibly_parallel_unlink_or_oops_do (Some AlwaysTrueClosure) (Some (OopClosure 10)) 0 0)]\<rparr>)"
  by (simp add: vm_roots_example_def run_eval process_vm_roots_def Let_def vm_example_def
      ShenandoahRootProcessor_def ParallelCLDRootIterator_def possibly_parallel_unlink_or_oops_do_def)

lemma sched_step_fatal:
  "fatal s \<noteq> None \<Longrightarrow> \<exists>s'. sched_step w (pool, s) = (pool, s') \<and> fatal s' \<noteq> None"
  by (cases "todo (pool ! w)") (auto simp: sched_step_def step_def)

lemma run_fatal:
  "fatal s \<noteq> None \<Longrightarrow> fst (run sched (pool, s)) = pool"
proof (induction sched arbitrary: s)
  case Nil
  show ?case by simp
next
  case (Cons w ws)
  from sched_step_fatal [OF Cons.prems, of w pool] obtain s' where
    "sched_step w (pool, s) = (pool, s')" "fatal s' \<noteq> None" by blast
  with Cons.IH [of s'] show ?case by simp
qed

lemma gang_not_done:
  assumes "1 \<le> n" "\<forall>w. body w \<noteq> []"
  shows "\<not> all_done (gang body n)"
proof -
  from assms(1) have "0 < n" by simp
  then have "[0..<n] = 0 # [1..<n]" by (simp add: upt_conv_Cons)
  with assms(2) show ?thesis by (simp add: all_done_def gang_def)
qed

lemma process_vm_roots_not_Nil: "process_vm_roots strong_roots weak_roots is_alive w \<noteq> []"
  by (simp add: process_vm_roots_def)

lemma process_evacuate_roots_not_Nil: "process_evacuate_roots oops blobs w \<noteq> []"
  by (simp add: process_evacuate_roots_def)

lemma tasks_ShenandoahRootProcessor:
  "fatal (ShenandoahRootProcessor n ph s) = None \<Longrightarrow> tasks (ShenandoahRootProcessor n ph s) = {}"
  by (simp add: ShenandoahRootProcessor_def Let_def split: if_splits)

lemma tasks_ShenandoahRootEvacuator:
  "fatal (ShenandoahRootEvacuator n ph s) = None \<Longrightarrow> tasks (ShenandoahRootEvacuator n ph s) = {}"
  by (simp add: ShenandoahRootEvacuator_def workers_start_def Let_def split: if_splits)

lemma session_visited_once:
  assumes body: "\<forall>w. claims_once t nm (body w)" and ne: "\<forall>w. body w \<noteq> []"
    and fresh: "fatal s = None \<Longrightarrow> tasks s = {}" and n: "1 \<le> n"
    and d: "all_done (fst (run sched (gang body n, s)))"
  shows "visits nm (new_calls s (snd (run sched (gang body n, s)))) = 1"
proof (cases "fatal s = None")
  case True
  with fresh have "t \<notin> tasks s" by simp
  from gang_visited_once [OF body this n _ d] show ?thesis by simp
next
  case False
  from run_fatal [OF this] d gang_not_done [OF n ne] show ?thesis by simp
qed

text \<open>
  Claim C1. Let \<open>n \<ge> 1\<close> workers run \<open>process_vm_roots\<close> (or \<open>process_evacuate_roots\<close>)
  on a freshly constructed processor, each worker with closures of its own, their
  actions interleaved by any schedule. Once all of them are done, each source that is
  guarded by a task of the claim set has been visited exactly once in all, by
  whichever worker claimed the task: the log of the scan holds one call of it.
\<close>

theorem singleton_sources_visited_once:
  assumes "1 \<le> n"
  shows "(\<forall>(t, nm)\<in>set vm_claimed.
            let s = ShenandoahRootProcessor n ph start;
                cfg = run sched
                        (gang (\<lambda>w. process_vm_roots (strong w) (weak w) (alive w) w) n, s)
            in all_done (fst cfg) \<longrightarrow> visits nm (new_calls s (snd cfg)) = 1)
         \<and> (\<forall>(t, nm)\<in>set evac_claimed.
            let s = ShenandoahRootEvacuator n ph start;
                cfg = run sched (gang (\<lambda>w. process_evacuate_roots (evac w) (code w) w) n, s)
            in all_done (fst cfg) \<longrightarrow> visits nm (new_calls s (snd cfg)) = 1)"
proof (intro conjI ballI)
  fix tc assume tc: "tc \<in> set vm_claimed"
  obtain t nm where [simp]: "tc = (t, nm)" by (cases tc)
  let ?body = "\<lambda>w. process_vm_roots (strong w) (weak w) (alive w) w"
  from tc have b: "\<forall>w. claims_once t nm (?body w)"
    by (simp add: process_vm_roots_claims_once)
  show "case tc of (t, nm) \<Rightarrow>
          let s = ShenandoahRootProcessor n ph start;
              cfg = run sched (gang ?body n, s)
          in all_done (fst cfg) \<longrightarrow> visits nm (new_calls s (snd cfg)) = 1"
    using session_visited_once [OF b _ tasks_ShenandoahRootProcessor assms]
    by (simp add: Let_def process_vm_roots_not_Nil)
next
  fix tc assume tc: "tc \<in> set evac_claimed"
  obtain t nm where [simp]: "tc = (t, nm)" by (cases tc)
  let ?body = "\<lambda>w. process_evacuate_roots (evac w) (code w) w"
  from tc have b: "\<forall>w. claims_once t nm (?body w)"
    by (simp add: process_evacuate_roots_claims_once)
  show "case tc of (t, nm) \<Rightarrow>
          let s = ShenandoahRootEvacuator n ph start;
              cfg = run sched (gang ?body n, s)
          in all_done (fst cfg) \<longrightarrow> visits nm (new_calls s (snd cfg)) = 1"
    using session_visited_once [OF b _ tasks_ShenandoahRootEvacuator assms]
    by (simp add: Let_def process_evacuate_roots_not_Nil)
qed

theorem singleton_sources_visited_once_witness:
  "(1::nat) \<le> 2 \<and> all_done (fst vm_roots_example) \<and> all_done (fst evac_own_example)
   \<and> map (\<lambda>(t, nm). visits nm (new_calls (ShenandoahRootProcessor 2 7 vm_example) (snd vm_roots_example)))
        vm_claimed = [1, 1, 1, 1, 1, 1]
   \<and> map (\<lambda>(t, nm). visits nm (new_calls (ShenandoahRootEvacuator 2 7 vm_example) (snd evac_own_example)))
        evac_claimed = [1, 1, 1, 1, 1, 1, 1]"
proof -
  have n: "(1::nat) \<le> 2" by simp
  have v: "visit_log (ShenandoahRootProcessor 2 7 vm_example) = []"
    "visit_log (ShenandoahRootEvacuator 2 7 vm_example) = []"
    by (simp_all add: ShenandoahRootProcessor_def ShenandoahRootEvacuator_def
        ParallelCLDRootIterator_def workers_start_def vm_example_def Let_def)
  show ?thesis
    using singleton_sources_visited_once
      [OF n, where strong = "\<lambda>w. Some (OopClosure w)"
         and weak = "\<lambda>w. Some (OopClosure (10 + w))"
         and alive = "\<lambda>w. Some AlwaysTrueClosure" and ph = 7 and start = vm_example
         and sched = round_robin and evac = "\<lambda>w. Some (OopClosure w)"
         and code = "\<lambda>w. Some (CodeBlobClosure w)",
       folded vm_roots_example_def evac_own_example_def]
    by (simp add: vm_roots_example evac_own_example all_done_def new_calls_def v visits_def
        vm_claimed_def evac_claimed_def)
qed

subsection \<open>Liveness predicates and code roots during evacuation\<close>

lemma calls_guards: "calls (guards tcs) x = (x \<in> snd ` set tcs)"
  by (induction tcs) (auto simp: guards_def calls_def)

lemma calls_process_evacuate_roots:
  "calls (process_evacuate_roots oops blobs w) x =
     ((\<exists>p. x = ShenandoahHeap_evacuate_object p)
      \<or> x = ClassLoaderDataGraph_roots_cld_do (Some (CLDToOopClosure oops)) (Some (CLDToOopClosure oops))
      \<or> x = Threads_possibly_parallel_oops_do oops None None
      \<or> (blobs \<noteq> None \<and> x = ShenandoahCsetCodeRootsIterator_possibly_parallel_blobs_do blobs)
      \<or> x \<in> snd ` set (evac_singletons oops)
      \<or> x = ShenandoahStringDedup_parallel_oops_do oops
      \<or> x = ShenandoahSynchronizerIterator_parallel_oops_do oops
      \<or> x = StringTable_possibly_parallel_oops_do oops)"
  by (cases x) (auto simp: process_evacuate_roots_guards calls_guards)

lemma ShenandoahRootEvacuator_example:
  "ShenandoahRootEvacuator 2 7 vm_example = vm_example\<lparr>timings := [record_workers_start 7 0]\<rparr>"
  by (simp add: ShenandoahRootEvacuator_def ParallelCLDRootIterator_def workers_start_def
      vm_example_def Let_def)

lemma vm_example_fields:
  "tasks vm_example = {}" "om_cursor vm_example = 0" "om_chunks vm_example = 2"
  "pending_list_lock vm_example = Some 5" "collection_set vm_example = {5, 6}"
  "forwardee vm_example = Map.empty" "to_space vm_example = [100, 101]"
  "relocated vm_example = []" "evacuation_in_progress vm_example" "at_safepoint vm_example"
  "\<not> dedup_enabled vm_example" "string_table vm_example = [40, 41, 42]" "clock vm_example = 0"
  "timings vm_example = []" "visit_log vm_example = []" "fatal vm_example = None"
  "phase vm_example = 7"
  by (simp_all add: vm_example_def)

text \<open>
  Claim C6. \<open>process_evacuate_roots\<close> takes no liveness predicate. Whatever the workers
  of an evacuation scan do, in any interleaving, the only call that is handed a
  predicate is the traversal of the weak native handles, and the predicate is the
  \<open>AlwaysTrueClosure\<close> the function builds itself; a worker that finds the task
  unclaimed makes that call.
\<close>

theorem process_evacuate_roots_always_alive:
  "(\<forall>e\<in>set (new_calls s (snd (run sched (gang (process_evacuate_roots oops blobs) n, s)))).
      \<forall>is_alive\<in>set (is_alive_of (snd e)).
        is_alive = Some AlwaysTrueClosure
        \<and> snd e = JNIHandles_weak_oops_do (Some AlwaysTrueClosure) oops)
   \<and> (fatal s = None \<and> evacuation_in_progress s
        \<and> SHENANDOAH_EVAC_JNIHandles_weak_oops_do \<notin> tasks s \<longrightarrow>
      (w, JNIHandles_weak_oops_do (Some AlwaysTrueClosure) oops)
        \<in> set (new_calls s (snd (exec w (process_evacuate_roots oops blobs w) (pll, s)))))"
proof (intro conjI ballI impI)
  fix e is_alive
  assume e: "e \<in> set (new_calls s (snd (run sched (gang (process_evacuate_roots oops blobs) n, s))))"
    and a: "is_alive \<in> set (is_alive_of (snd e))"
  from gang_new_calls [OF e] have "calls (process_evacuate_roots oops blobs (fst e)) (snd e)" by simp
  with a show "is_alive = Some AlwaysTrueClosure"
    and "snd e = JNIHandles_weak_oops_do (Some AlwaysTrueClosure) oops"
    by (auto simp: calls_process_evacuate_roots evac_singletons_def)
next
  assume "fatal s = None \<and> evacuation_in_progress s
    \<and> SHENANDOAH_EVAC_JNIHandles_weak_oops_do \<notin> tasks s"
  then show "(w, JNIHandles_weak_oops_do (Some AlwaysTrueClosure) oops)
        \<in> set (new_calls s (snd (exec w (process_evacuate_roots oops blobs w) (pll, s))))"
    by (simp add: process_evacuate_roots_log unclaimed_def evac_singletons_def)
qed

theorem process_evacuate_roots_always_alive_witness:
  "(0, JNIHandles_weak_oops_do (Some AlwaysTrueClosure) (Some (OopClosure 1)))
     \<in> set (new_calls (ShenandoahRootEvacuator 2 7 vm_example) (snd evac_example))
   \<and> is_alive_of (JNIHandles_weak_oops_do (Some AlwaysTrueClosure) (Some (OopClosure 1)))
       = [Some AlwaysTrueClosure]
   \<and> fatal (ShenandoahRootEvacuator 2 7 vm_example) = None
   \<and> evacuation_in_progress (ShenandoahRootEvacuator 2 7 vm_example)
   \<and> SHENANDOAH_EVAC_JNIHandles_weak_oops_do \<notin> tasks (ShenandoahRootEvacuator 2 7 vm_example)
   \<and> (0, JNIHandles_weak_oops_do (Some AlwaysTrueClosure) (Some (OopClosure 1)))
       \<in> set (new_calls (ShenandoahRootEvacuator 2 7 vm_example)
            (snd (exec 0 (process_evacuate_roots (Some (OopClosure 1)) (Some (CodeBlobClosure 2)) 0)
                   (None, ShenandoahRootEvacuator 2 7 vm_example))))"
  using process_evacuate_roots_always_alive
    [of "ShenandoahRootEvacuator 2 7 vm_example" round_robin "Some (OopClosure 1)"
        "Some (CodeBlobClosure 2)" 2 0 None, folded evac_example_def]
  by (simp add: evac_example ShenandoahRootEvacuator_example new_calls_def vm_example_fields
      process_evacuate_roots_log unclaimed_def evac_singletons_def)

text \<open>
  Claim C7. In an evacuation scan, in any interleaving, \<open>CodeCache::blobs_do\<close> is never
  called and the thread traversal gets no code-blob closure: the only call that is
  handed one is \<open>possibly_parallel_blobs_do\<close> of the iterator over the code roots of
  the collection set, and a worker with a code-blob closure makes that call.
  \<open>process_all_roots_slow\<close> calls \<open>CodeCache::blobs_do\<close>, over the whole code cache,
  and never uses the collection-set iterator.
\<close>

theorem evacuation_code_roots:
  "(\<forall>e\<in>set (new_calls s (snd (run sched (gang (process_evacuate_roots oops blobs) n, s)))).
      (\<forall>f. snd e \<noteq> CodeCache_blobs_do f)
      \<and> (code_closure_of (snd e) \<noteq> None \<longrightarrow>
           snd e = ShenandoahCsetCodeRootsIterator_possibly_parallel_blobs_do blobs))
   \<and> (fatal s = None \<and> evacuation_in_progress s \<and> blobs \<noteq> None \<longrightarrow>
        (w, ShenandoahCsetCodeRootsIterator_possibly_parallel_blobs_do blobs)
          \<in> set (new_calls s (snd (exec w (process_evacuate_roots oops blobs w) (pll, s)))))
   \<and> (fatal s = None \<longrightarrow>
        (let lg = new_calls s (snd (exec w (process_all_roots_slow oops) (pll, s)))
         in (w, CodeCache_blobs_do (Some (CodeBlobToOopClosure oops (\<not> FixRelocations)))) \<in> set lg
            \<and> (\<forall>e\<in>set lg. \<not> cset_code_roots (snd e))))"
proof (intro conjI ballI impI allI)
  fix e f
  assume e: "e \<in> set (new_calls s (snd (run sched (gang (process_evacuate_roots oops blobs) n, s))))"
  from gang_new_calls [OF e] have c: "calls (process_evacuate_roots oops blobs (fst e)) (snd e)"
    by simp
  then show "snd e \<noteq> CodeCache_blobs_do f"
    by (auto simp: calls_process_evacuate_roots evac_singletons_def)
  assume "code_closure_of (snd e) \<noteq> None"
  with c show "snd e = ShenandoahCsetCodeRootsIterator_possibly_parallel_blobs_do blobs"
    by (auto simp: calls_process_evacuate_roots evac_singletons_def)
next
  assume "fatal s = None \<and> evacuation_in_progress s \<and> blobs \<noteq> None"
  then show "(w, ShenandoahCsetCodeRootsIterator_possibly_parallel_blobs_do blobs)
          \<in> set (new_calls s (snd (exec w (process_evacuate_roots oops blobs w) (pll, s))))"
    by (simp add: process_evacuate_roots_log)
next
  assume f: "fatal s = None"
  have lg: "new_calls s (snd (exec w (process_all_roots_slow oops) (pll, s)))
        = map (Pair w) (slow_calls oops (dedup_enabled s))
          @ [(w, Threads_possibly_parallel_oops_do oops (Some (CLDToOopClosure oops))
                   (Some (CodeBlobToOopClosure oops False)))]"
    by (simp add: new_calls_def slow_log [OF f] slow_calls_def)
  show "let lg = new_calls s (snd (exec w (process_all_roots_slow oops) (pll, s)))
         in (w, CodeCache_blobs_do (Some (CodeBlobToOopClosure oops (\<not> FixRelocations)))) \<in> set lg
            \<and> (\<forall>e\<in>set lg. \<not> cset_code_roots (snd e))"
    unfolding lg Let_def by (auto simp: slow_calls_def FixRelocations_def)
qed

theorem evacuation_code_roots_witness:
  "(1, ShenandoahCsetCodeRootsIterator_possibly_parallel_blobs_do (Some (CodeBlobClosure 2)))
     \<in> set (new_calls (ShenandoahRootEvacuator 2 7 vm_example) (snd evac_example))
   \<and> code_closure_of (ShenandoahCsetCodeRootsIterator_possibly_parallel_blobs_do (Some (CodeBlobClosure 2)))
       \<noteq> None
   \<and> fatal (ShenandoahRootEvacuator 2 7 vm_example) = None
   \<and> evacuation_in_progress (ShenandoahRootEvacuator 2 7 vm_example)
   \<and> Some (CodeBlobClosure 2) \<noteq> None
   \<and> (0, ShenandoahCsetCodeRootsIterator_possibly_parallel_blobs_do (Some (CodeBlobClosure 2)))
       \<in> set (new_calls (ShenandoahRootEvacuator 2 7 vm_example)
            (snd (exec 0 (process_evacuate_roots (Some (OopClosure 1)) (Some (CodeBlobClosure 2)) 0)
                   (None, ShenandoahRootEvacuator 2 7 vm_example))))
   \<and> hd (new_calls (ShenandoahRootEvacuator 2 7 vm_example)
            (snd (exec 0 (process_all_roots_slow (Some (OopClosure 1)))
                   (None, ShenandoahRootEvacuator 2 7 vm_example))))
       = (0, CodeCache_blobs_do (Some (CodeBlobToOopClosure (Some (OopClosure 1)) False)))"
  using evacuation_code_roots
    [of "ShenandoahRootEvacuator 2 7 vm_example" round_robin "Some (OopClosure 1)"
        "Some (CodeBlobClosure 2)" 2 0 None, folded evac_example_def]
  by (simp add: evac_example ShenandoahRootEvacuator_example vm_example_fields
      process_evacuate_roots_log slow_log new_calls_def)

lemma unclaimed_evac_not_code:
  "x \<in> set (unclaimed T (evac_singletons oops)) \<Longrightarrow> \<not> cset_code_roots x"
  using set_unclaimed [of T "evac_singletons oops"] by (auto simp: evac_singletons_def)

lemma pll_attempt_not_code: "x \<in> set (pll_attempt s) \<Longrightarrow> \<not> cset_code_roots x"
  by (auto simp: pll_attempt_def split: option.splits if_splits)

text \<open>
  Claim C10. With a NULL code-blob closure \<open>process_evacuate_roots\<close> makes no call of
  the code-root iterator and hands no code-blob closure to anyone; it makes every
  other call that it makes with a closure, in the same order.
\<close>

theorem process_evacuate_roots_null_blobs:
  assumes "fatal s = None" "evacuation_in_progress s"
  shows "(let without = new_calls s (snd (exec w (process_evacuate_roots oops None w) (pll, s)));
              with_blobs = new_calls s (snd (exec w (process_evacuate_roots oops (Some blobs) w) (pll, s)))
          in (\<forall>e\<in>set without. \<not> cset_code_roots (snd e) \<and> code_closure_of (snd e) = None)
             \<and> without = filter (\<lambda>e. \<not> cset_code_roots (snd e)) with_blobs
             \<and> (w, ShenandoahCsetCodeRootsIterator_possibly_parallel_blobs_do (Some blobs))
                  \<in> set with_blobs)"
proof -
  have u: "filter (\<lambda>x. \<not> cset_code_roots x) (unclaimed (tasks s) (evac_singletons oops))
           = unclaimed (tasks s) (evac_singletons oops)"
    by (intro filter_all ballI) (use unclaimed_evac_not_code in blast)
  have p: "filter (\<lambda>x. \<not> cset_code_roots x) (pll_attempt s) = pll_attempt s"
    by (intro filter_all ballI) (use pll_attempt_not_code in blast)
  have r: "filter (\<lambda>x. \<not> cset_code_roots x)
             (replicate k (ShenandoahSynchronizerIterator_parallel_oops_do oops))
           = replicate k (ShenandoahSynchronizerIterator_parallel_oops_do oops)" for k
    by (intro filter_all) simp
  have 1: "new_calls s (snd (exec w (process_evacuate_roots oops None w) (pll, s)))
        = filter (\<lambda>e. \<not> cset_code_roots (snd e))
            (new_calls s (snd (exec w (process_evacuate_roots oops (Some blobs) w) (pll, s))))"
    by (simp add: process_evacuate_roots_log [OF assms] filter_map comp_def u p r)
  have 2: "\<forall>e\<in>set (new_calls s (snd (exec w (process_evacuate_roots oops None w) (pll, s)))).
             \<not> cset_code_roots (snd e) \<and> code_closure_of (snd e) = None"
  proof
    fix e assume "e \<in> set (new_calls s (snd (exec w (process_evacuate_roots oops None w) (pll, s))))"
    from exec_new_calls [OF this] show "\<not> cset_code_roots (snd e) \<and> code_closure_of (snd e) = None"
      by (auto simp: calls_process_evacuate_roots evac_singletons_def)
  qed
  have 3: "(w, ShenandoahCsetCodeRootsIterator_possibly_parallel_blobs_do (Some blobs))
        \<in> set (new_calls s (snd (exec w (process_evacuate_roots oops (Some blobs) w) (pll, s))))"
    by (simp add: process_evacuate_roots_log [OF assms])
  from 1 2 3 show ?thesis by (simp add: Let_def)
qed

theorem process_evacuate_roots_null_blobs_witness:
  "fatal vm_example = None \<and> evacuation_in_progress vm_example
   \<and> new_calls vm_example
       (snd (exec 0 (process_evacuate_roots (Some (OopClosure 1)) None 0) (None, vm_example)))
     = map (Pair 0)
        [ShenandoahHeap_evacuate_object 5,
         ClassLoaderDataGraph_roots_cld_do (Some (CLDToOopClosure (Some (OopClosure 1))))
           (Some (CLDToOopClosure (Some (OopClosure 1)))),
         Threads_possibly_parallel_oops_do (Some (OopClosure 1)) None None,
         Universe_oops_do (Some (OopClosure 1)),
         JNIHandles_oops_do (Some (OopClosure 1)),
         FlatProfiler_oops_do (Some (OopClosure 1)),
         Management_oops_do (Some (OopClosure 1)),
         JvmtiExport_oops_do (Some (OopClosure 1)),
         SystemDictionary_oops_do (Some (OopClosure 1)),
         JNIHandles_weak_oops_do (Some AlwaysTrueClosure) (Some (OopClosure 1)),
         ShenandoahSynchronizerIterator_parallel_oops_do (Some (OopClosure 1)),
         ShenandoahSynchronizerIterator_parallel_oops_do (Some (OopClosure 1)),
         StringTable_possibly_parallel_oops_do (Some (OopClosure 1))]
   \<and> (0, ShenandoahCsetCodeRootsIterator_possibly_parallel_blobs_do (Some (CodeBlobClosure 2)))
       \<in> set (new_calls vm_example
            (snd (exec 0 (process_evacuate_roots (Some (OopClosure 1)) (Some (CodeBlobClosure 2)) 0)
                   (None, vm_example))))"
proof -
  have h: "fatal vm_example = None" "evacuation_in_progress vm_example"
    by (simp_all add: vm_example_def)
  have e: "tasks vm_example = {}" "om_chunks vm_example = 2" "om_cursor vm_example = 0"
    "dedup_enabled vm_example = False" "pll_attempt vm_example = [ShenandoahHeap_evacuate_object 5]"
    by (simp_all add: vm_example_def pll_attempt_def resolve_forwarded_not_null_def)
  show ?thesis
    using h process_evacuate_roots_null_blobs [OF h, of 0 "Some (OopClosure 1)" None "CodeBlobClosure 2"]
    by (simp add: process_evacuate_roots_log [OF h] e unclaimed_def evac_singletons_def
        numeral_2_eq_2)
qed

subsection \<open>The pending-list-lock pre-pass\<close>

lemma first_block_order:
  assumes "\<forall>x\<in>set A. P x" "\<forall>x\<in>set B. \<not> P x"
    and "i < length (A @ B)" "j < length (A @ B)" "P ((A @ B) ! i)" "\<not> P ((A @ B) ! j)"
  shows "i < j"
  using assms by (auto simp: nth_append split: if_splits)

lemma evacuate_object_relocated_once:
  "relocated_once s \<Longrightarrow> relocated_once (evacuate_object p s)"
  by (auto simp: relocated_once_def evacuate_object_def list_all_iff split: option.splits list.splits)

lemma collaborator_heap [simp]:
  "relocated (collaborator c s) = relocated s" "forwardee (collaborator c s) = forwardee s"
  by (cases "(c, s)" rule: collaborator.cases;
      auto simp: all_tasks_completed_def Let_def split: option.splits prod.splits)+

lemma act_relocated_once:
  assumes "relocated_once s" "act w i pll s = (pll', s', pre)"
  shows "relocated_once s'"
proof (cases i)
  case (When c body)
  with assms show ?thesis
    by (cases c) (auto simp: relocated_once_def is_task_claimed_def split: prod.splits)
next
  case (Call c)
  with assms show ?thesis by (auto simp: relocated_once_def)
next
  case (While_om_parallel_oops_do f)
  with assms show ?thesis
    by (auto simp: relocated_once_def parallel_oops_do_def split: if_splits)
next
  case Evacuate_pll
  with assms show ?thesis
    using evacuate_object_relocated_once
      [of "s\<lparr>visit_log := visit_log s @ [(w, ShenandoahHeap_evacuate_object (the pll))]\<rparr>" "the pll"]
    by (auto simp: relocated_once_def split: option.splits)
qed (use assms in \<open>auto simp: relocated_once_def split: if_splits\<close>)

lemma sched_step_relocated_once:
  assumes "relocated_once s"
  shows "relocated_once (snd (sched_step w (pool, s)))"
proof (cases "w < length pool \<and> fatal s = None \<and> todo (pool ! w) \<noteq> []")
  case True
  then obtain i rest where t: "todo (pool ! w) = i # rest" by (cases "todo (pool ! w)") auto
  obtain pll' s' pre where a: "act w i (pll_reg (pool ! w)) s = (pll', s', pre)"
    by (cases "act w i (pll_reg (pool ! w)) s") auto
  from act_relocated_once [OF assms a] True t a show ?thesis
    by (simp add: sched_step_def step_def relocated_once_def)
next
  case False
  with assms show ?thesis
    by (cases "todo (pool ! w)") (auto simp: sched_step_def step_def relocated_once_def)
qed

lemma run_relocated_once:
  "relocated_once s \<Longrightarrow> relocated_once (snd (run sched (pool, s)))"
proof (induction sched arbitrary: pool s)
  case Nil
  then show ?case by simp
next
  case (Cons w ws)
  obtain p1 s1 where st: "sched_step w (pool, s) = (p1, s1)"
    by (cases "sched_step w (pool, s)") auto
  from sched_step_relocated_once [OF Cons.prems, of w pool] st have "relocated_once s1" by simp
  from Cons.IH [OF this, of p1] st show ?case by simp
qed

lemma distinct_count_le_1: "distinct xs \<Longrightarrow> count_list xs p \<le> 1"
  by (induction xs) auto

lemma unclaimed_evac_not_evacuates:
  "x \<in> set (unclaimed T (evac_singletons oops)) \<Longrightarrow> \<not> evacuates x"
  using set_unclaimed [of T "evac_singletons oops"] by (auto simp: evac_singletons_def)

text \<open>
  Claim C2. A call of \<open>process_evacuate_roots\<close> attempts the evacuation of the
  pending-list lock exactly when the slot is not NULL and the object is in the
  collection set and resolves to itself, and it does so before any other call of the
  scan. When the workers of a gang all run the pre-pass, in any interleaving, no
  object is relocated more than once.
\<close>

theorem pending_list_lock_pre_pass:
  "(fatal s = None \<and> evacuation_in_progress s \<longrightarrow>
      (let lg = new_calls s (snd (exec w (process_evacuate_roots oops blobs w) (pll, s)))
       in (\<forall>p. (w, ShenandoahHeap_evacuate_object p) \<in> set lg \<longleftrightarrow>
                 pending_list_lock s = Some p \<and> p \<in> collection_set s
                 \<and> p = resolve_forwarded_not_null s p)
          \<and> (\<forall>i j. i < length lg \<and> j < length lg \<and> evacuates (snd (lg ! i))
                     \<and> \<not> evacuates (snd (lg ! j)) \<longrightarrow> i < j)))
   \<and> (relocated s = [] \<longrightarrow>
        (\<forall>p. count_list
               (relocated (snd (run sched (gang (process_evacuate_roots oops blobs) n, s)))) p \<le> 1))"
proof (intro conjI impI)
  assume a: "fatal s = None \<and> evacuation_in_progress s"
  let ?A = "map (Pair w) (pll_attempt s)"
  let ?B = "map (Pair w)
     ([ClassLoaderDataGraph_roots_cld_do (Some (CLDToOopClosure oops)) (Some (CLDToOopClosure oops)),
       Threads_possibly_parallel_oops_do oops None None]
      @ (if blobs \<noteq> None
         then [ShenandoahCsetCodeRootsIterator_possibly_parallel_blobs_do blobs] else [])
      @ unclaimed (tasks s) (evac_singletons oops)
      @ (if dedup_enabled s then [ShenandoahStringDedup_parallel_oops_do oops] else [])
      @ replicate (om_chunks s - om_cursor s) (ShenandoahSynchronizerIterator_parallel_oops_do oops)
      @ [StringTable_possibly_parallel_oops_do oops])"
  have lg: "new_calls s (snd (exec w (process_evacuate_roots oops blobs w) (pll, s))) = ?A @ ?B"
    using a by (simp add: process_evacuate_roots_log)
  have A: "\<forall>x\<in>set ?A. evacuates (snd x)"
    by (auto simp: pll_attempt_def split: option.splits if_splits)
  have B: "\<forall>x\<in>set ?B. \<not> evacuates (snd x)"
    using unclaimed_evac_not_evacuates by auto
  have 1: "(w, ShenandoahHeap_evacuate_object p) \<in> set (?A @ ?B) \<longleftrightarrow>
           pending_list_lock s = Some p \<and> p \<in> collection_set s
           \<and> p = resolve_forwarded_not_null s p" for p
  proof -
    have "(w, ShenandoahHeap_evacuate_object p) \<notin> set ?B" using B by force
    then show ?thesis
      by (auto simp: pll_attempt_def split: option.splits if_splits)
  qed
  have 2: "i < j" if "i < length (?A @ ?B)" "j < length (?A @ ?B)"
    "evacuates (snd ((?A @ ?B) ! i))" "\<not> evacuates (snd ((?A @ ?B) ! j))" for i j
    using first_block_order [where P = "\<lambda>x. evacuates (snd x)", OF A B that] .
  show "let lg = new_calls s (snd (exec w (process_evacuate_roots oops blobs w) (pll, s)))
       in (\<forall>p. (w, ShenandoahHeap_evacuate_object p) \<in> set lg \<longleftrightarrow>
                 pending_list_lock s = Some p \<and> p \<in> collection_set s
                 \<and> p = resolve_forwarded_not_null s p)
          \<and> (\<forall>i j. i < length lg \<and> j < length lg \<and> evacuates (snd (lg ! i))
                     \<and> \<not> evacuates (snd (lg ! j)) \<longrightarrow> i < j)"
    unfolding lg Let_def using 1 2 by blast
next
  assume "relocated s = []"
  then have "relocated_once s" by (simp add: relocated_once_def)
  from run_relocated_once [OF this, of sched "gang (process_evacuate_roots oops blobs) n"]
  have "distinct (relocated (snd (run sched (gang (process_evacuate_roots oops blobs) n, s))))"
    by (simp add: relocated_once_def)
  then show "\<forall>p. count_list
               (relocated (snd (run sched (gang (process_evacuate_roots oops blobs) n, s)))) p \<le> 1"
    by (intro allI distinct_count_le_1)
qed

theorem pending_list_lock_pre_pass_witness:
  "fatal (ShenandoahRootEvacuator 2 7 vm_example) = None
   \<and> evacuation_in_progress (ShenandoahRootEvacuator 2 7 vm_example)
   \<and> pending_list_lock (ShenandoahRootEvacuator 2 7 vm_example) = Some 5
   \<and> 5 \<in> collection_set (ShenandoahRootEvacuator 2 7 vm_example)
   \<and> 5 = resolve_forwarded_not_null (ShenandoahRootEvacuator 2 7 vm_example) 5
   \<and> hd (new_calls (ShenandoahRootEvacuator 2 7 vm_example)
            (snd (exec 0 (process_evacuate_roots (Some (OopClosure 1)) (Some (CodeBlobClosure 2)) 0)
                   (None, ShenandoahRootEvacuator 2 7 vm_example))))
       = (0, ShenandoahHeap_evacuate_object 5)
   \<and> relocated (ShenandoahRootEvacuator 2 7 vm_example) = []
   \<and> length (filter evacuates (map snd (visit_log (snd evac_example)))) = 2
   \<and> relocated (snd evac_example) = [5]"
  using pending_list_lock_pre_pass
    [of "ShenandoahRootEvacuator 2 7 vm_example" 0 "Some (OopClosure 1)"
        "Some (CodeBlobClosure 2)" None round_robin 2, folded evac_example_def]
  by (simp add: evac_example ShenandoahRootEvacuator_example vm_example_fields
      process_evacuate_roots_log pll_attempt_def resolve_forwarded_not_null_def)

subsection \<open>The counters of the intern-table traversal\<close>





subsection \<open>The phase timing of an evacuation scan\<close>

lemma collaborator_frame [simp]:
  "evacuation_in_progress (collaborator c s) = evacuation_in_progress s"
  "timings (collaborator c s) = timings s" "phase (collaborator c s) = phase s"
  "clock (collaborator c s) = clock s"
  by (cases "(c, s)" rule: collaborator.cases;
      auto simp: all_tasks_completed_def Let_def split: option.splits prod.splits)+

lemma fatal_collaborator: "safe (Call c) \<Longrightarrow> fatal (collaborator c s) = fatal s"
  by (cases "(c, s)" rule: collaborator.cases)
     (auto simp: all_tasks_completed_def Let_def split: option.splits prod.splits)

lemma evacuate_object_frame [simp]:
  "evacuation_in_progress (evacuate_object p s) = evacuation_in_progress s"
  "timings (evacuate_object p s) = timings s" "phase (evacuate_object p s) = phase s"
  "clock (evacuate_object p s) = clock s"
  by (simp_all add: evacuate_object_def split: option.splits list.splits)

lemma act_steady:
  assumes "safe i" "steady T ph c0 s" "act w i pll s = (pll', s', pre)"
  shows "steady T ph c0 s' \<and> list_all safe pre"
proof (cases i)
  case (When c body)
  with assms show ?thesis
    by (cases c) (auto simp: steady_def is_task_claimed_def split: prod.splits)
next
  case (Call c)
  with assms fatal_collaborator [of c] show ?thesis by (auto simp: steady_def)
next
  case (While_om_parallel_oops_do f)
  with assms show ?thesis
    by (auto simp: steady_def parallel_oops_do_def split: if_splits)
next
  case Evacuate_pll
  with assms show ?thesis by (auto simp: steady_def split: option.splits)
qed (use assms in \<open>auto simp: steady_def split: if_splits\<close>)

lemma sched_step_steady:
  assumes "list_all (\<lambda>wk. list_all safe (todo wk)) pool" "steady T ph c0 s"
    and "sched_step w (pool, s) = (pool', s')"
  shows "list_all (\<lambda>wk. list_all safe (todo wk)) pool' \<and> steady T ph c0 s'"
proof (cases "w < length pool \<and> todo (pool ! w) \<noteq> []")
  case True
  then obtain i rest where t: "todo (pool ! w) = i # rest" by (cases "todo (pool ! w)") auto
  obtain pll' s1 pre where a: "act w i (pll_reg (pool ! w)) s = (pll', s1, pre)"
    by (cases "act w i (pll_reg (pool ! w)) s") auto
  from True have "pool ! w \<in> set pool" by simp
  with assms(1) have "list_all safe (todo (pool ! w))" by (simp add: list_all_iff)
  with t have si: "safe i" and sr: "list_all safe rest" by simp_all
  from assms(2) have f: "fatal s = None" by (simp add: steady_def)
  from assms(3) True t a f
  have eq: "pool' = pool[w := \<lparr>pll_reg = pll', todo = pre @ rest\<rparr>]" "s' = s1\<lparr>clock := Suc (clock s1)\<rparr>"
    by (auto simp: sched_step_def step_def)
  from act_steady [OF si assms(2) a] have 1: "steady T ph c0 s1" and 2: "list_all safe pre"
    by auto
  from 1 have "steady T ph c0 s'" by (simp add: eq steady_def)
  moreover have "list_all (\<lambda>wk. list_all safe (todo wk)) pool'"
  proof -
    from 2 sr have n: "list_all safe (pre @ rest)" by simp
    have "set pool' \<subseteq> insert \<lparr>pll_reg = pll', todo = pre @ rest\<rparr> (set pool)"
      unfolding eq by (rule set_update_subset_insert)
    with assms(1) n show ?thesis by (auto simp: list_all_iff)
  qed
  ultimately show ?thesis by simp
next
  case False
  show ?thesis
  proof (cases "w < length pool")
    case True
    with False have "todo (pool ! w) = []" by simp
    with True assms(3) have "pool' = pool" "s' = s\<lparr>clock := Suc (clock s)\<rparr>"
      by (auto simp: sched_step_def step_def)
    with assms(1,2) show ?thesis by (simp add: steady_def)
  next
    case False
    with assms show ?thesis by (simp add: sched_step_def)
  qed
qed

lemma run_steady:
  assumes "list_all (\<lambda>wk. list_all safe (todo wk)) pool" "steady T ph c0 s"
  shows "steady T ph c0 (snd (run sched (pool, s)))"
  using assms
proof (induction sched arbitrary: pool s)
  case Nil
  then show ?case by simp
next
  case (Cons w ws)
  obtain p1 s1 where st: "sched_step w (pool, s) = (p1, s1)"
    by (cases "sched_step w (pool, s)") auto
  from sched_step_steady [OF Cons.prems st] Cons.IH [of p1 s1] st show ?case by simp
qed

lemma process_evacuate_roots_safe: "list_all safe (process_evacuate_roots oops blobs w)"
  by (simp add: process_evacuate_roots_def root_cld_do_def Let_def)

text \<open>
  Claim C8. An evacuation scan that is constructed at a safepoint while the evacuation
  is in progress records one start of the phase at construction and one end at
  destruction, whatever the workers do in between and however far they get: the
  timings grow by exactly one start and one end of the phase of the processor, and
  the end is not earlier than the start.
\<close>

theorem evacuation_session_timing:
  assumes "fatal s0 = None" "at_safepoint s0" "evacuation_in_progress s0"
  shows "(let s = evacuation_session n ph oops blobs sched s0
          in fatal s = None
             \<and> (\<exists>t0 t1. timings s = timings s0 @ [record_workers_start ph t0, record_workers_end ph t1]
                        \<and> t0 \<le> t1))"
proof -
  let ?s1 = "ShenandoahRootEvacuator n ph s0"
  let ?T = "timings s0 @ [record_workers_start ph (clock s0)]"
  let ?s2 = "snd (run sched (gang (process_evacuate_roots oops blobs) n, ?s1))"
  have 1: "steady ?T ph (clock s0) ?s1"
    using assms
    by (simp add: steady_def ShenandoahRootEvacuator_def ParallelCLDRootIterator_def
        workers_start_def Let_def)
  have 2: "list_all (\<lambda>wk. list_all safe (todo wk)) (gang (process_evacuate_roots oops blobs) n)"
    by (simp add: gang_def list_all_iff process_evacuate_roots_safe [unfolded list_all_iff])
  from run_steady [OF 2 1] have 3: "steady ?T ph (clock s0) ?s2" .
  then have "fatal ?s2 = None" "timings ?s2 = ?T" "phase ?s2 = ph" "clock s0 \<le> clock ?s2"
    by (simp_all add: steady_def)
  then have "fatal (evacuation_session n ph oops blobs sched s0) = None"
    and "timings (evacuation_session n ph oops blobs sched s0)
         = timings s0 @ [record_workers_start ph (clock s0), record_workers_end ph (clock ?s2)]"
    and "clock s0 \<le> clock ?s2"
    by (simp_all add: evacuation_session_def Let_def ShenandoahRootEvacuator_destructor_def
        workers_end_def)
  then show ?thesis unfolding Let_def by blast
qed

theorem evacuation_session_timing_witness:
  "fatal vm_example = None \<and> at_safepoint vm_example \<and> evacuation_in_progress vm_example
   \<and> fatal (evacuation_session 2 7 (Some (OopClosure 1)) (Some (CodeBlobClosure 2)) round_robin vm_example) = None
   \<and> timings (evacuation_session 2 7 (Some (OopClosure 1)) (Some (CodeBlobClosure 2)) round_robin vm_example)
       = [record_workers_start 7 0, record_workers_end 7 50]"
proof -
  have h: "fatal vm_example = None" "at_safepoint vm_example" "evacuation_in_progress vm_example"
    by (simp_all add: vm_example_fields)
  have e: "evacuation_session 2 7 (Some (OopClosure 1)) (Some (CodeBlobClosure 2)) round_robin vm_example
           = (let s2 = snd evac_example
              in if fatal s2 \<noteq> None then s2 else ShenandoahRootEvacuator_destructor s2)"
    by (simp add: evacuation_session_def evac_example_def Let_def)
  note T = evacuation_session_timing
      [OF h, of 2 7 "Some (OopClosure 1)" "Some (CodeBlobClosure 2)" round_robin, unfolded e]
  show ?thesis
    unfolding e using h T
    by (simp add: evac_example Let_def ShenandoahRootEvacuator_destructor_def workers_end_def
        vm_example_fields)
qed

subsection \<open>A call is what a worker does when it is scheduled alone\<close>

text \<open>
  The clock is the only part of the state that tells a scheduled step from an action,
  and no action reads it. So a worker that is given enough steps in a row reaches, up
  to the clock, the state that \<open>exec\<close> computes for its call, and has nothing left to
  do unless the VM has stopped on a fatal error.
\<close>

lemma collaborator_clock: "collaborator c (s\<lparr>clock := k\<rparr>) = (collaborator c s)\<lparr>clock := k\<rparr>"
  by (cases "(c, s)" rule: collaborator.cases)
     (auto simp: all_tasks_completed_def Let_def split: option.splits prod.splits)

lemma evacuate_object_clock: "evacuate_object p (s\<lparr>clock := k\<rparr>) = (evacuate_object p s)\<lparr>clock := k\<rparr>"
  by (simp add: evacuate_object_def split: option.splits list.splits)

lemma act_clock:
  "act w i pll (s\<lparr>clock := k\<rparr>) =
     (case act w i pll s of (pll', s', pre) \<Rightarrow> (pll', s'\<lparr>clock := k\<rparr>, pre))"
proof (cases i)
  case (When c body)
  then show ?thesis
    by (cases c) (auto simp: is_task_claimed_def resolve_forwarded_not_null_def split: option.splits)
next
  case (Call c)
  have "s\<lparr>clock := k, visit_log := visit_log s @ [(w, c)]\<rparr>
        = s\<lparr>visit_log := visit_log s @ [(w, c)]\<rparr>\<lparr>clock := k\<rparr>" by simp
  then have "collaborator c (s\<lparr>clock := k, visit_log := visit_log s @ [(w, c)]\<rparr>)
        = (collaborator c (s\<lparr>visit_log := visit_log s @ [(w, c)]\<rparr>))\<lparr>clock := k\<rparr>"
    by (simp only: collaborator_clock)
  with Call show ?thesis by (simp del: collaborator.simps)
next
  case (While_om_parallel_oops_do f)
  then show ?thesis by (simp add: parallel_oops_do_def)
next
  case Evacuate_pll
  show ?thesis
  proof (cases pll)
    case None
    with Evacuate_pll show ?thesis by simp
  next
    case (Some p)
    have "s\<lparr>clock := k, visit_log := visit_log s @ [(w, ShenandoahHeap_evacuate_object p)]\<rparr>
        = s\<lparr>visit_log := visit_log s @ [(w, ShenandoahHeap_evacuate_object p)]\<rparr>\<lparr>clock := k\<rparr>"
      by simp
    then have "evacuate_object p
          (s\<lparr>clock := k, visit_log := visit_log s @ [(w, ShenandoahHeap_evacuate_object p)]\<rparr>)
        = (evacuate_object p
             (s\<lparr>visit_log := visit_log s @ [(w, ShenandoahHeap_evacuate_object p)]\<rparr>))\<lparr>clock := k\<rparr>"
      by (simp only: evacuate_object_clock)
    with Evacuate_pll Some show ?thesis by simp
  qed
qed simp_all

lemma sched_step_clock:
  "\<exists>k'. sched_step w (pool, s\<lparr>clock := k\<rparr>)
         = (fst (sched_step w (pool, s)), (snd (sched_step w (pool, s)))\<lparr>clock := k'\<rparr>)"
proof (cases "w < length pool \<and> fatal s = None \<and> todo (pool ! w) \<noteq> []")
  case True
  then obtain i rest where t: "todo (pool ! w) = i # rest" by (cases "todo (pool ! w)") auto
  obtain pll' s' pre where a: "act w i (pll_reg (pool ! w)) s = (pll', s', pre)"
    by (cases "act w i (pll_reg (pool ! w)) s") auto
  from a have a': "act w i (pll_reg (pool ! w)) (s\<lparr>clock := k\<rparr>) = (pll', s'\<lparr>clock := k\<rparr>, pre)"
    by (simp add: act_clock)
  from True t a a' show ?thesis
    by (intro exI [of _ "Suc k"]) (simp add: sched_step_def step_def)
next
  case False
  show ?thesis
  proof (cases "w < length pool")
    case True
    with False have "fatal s \<noteq> None \<or> todo (pool ! w) = []" by auto
    with True show ?thesis
      by (intro exI [of _ "Suc k"]) (cases "todo (pool ! w)"; auto simp: sched_step_def step_def)
  next
    case False
    then show ?thesis by (intro exI [of _ k]) (simp add: sched_step_def)
  qed
qed

lemma run_clock:
  "\<exists>k'. run sched (pool, s\<lparr>clock := k\<rparr>)
         = (fst (run sched (pool, s)), (snd (run sched (pool, s)))\<lparr>clock := k'\<rparr>)"
proof (induction sched arbitrary: pool s k)
  case Nil
  show ?case by (intro exI [of _ k]) simp
next
  case (Cons w ws)
  obtain p1 s1 where st: "sched_step w (pool, s) = (p1, s1)"
    by (cases "sched_step w (pool, s)") auto
  from sched_step_clock [where w = w and pool = pool and s = s and k = k] st obtain k1 where
    "sched_step w (pool, s\<lparr>clock := k\<rparr>) = (p1, s1\<lparr>clock := k1\<rparr>)" by auto
  with Cons.IH [where pool = p1 and s = s1 and k = k1] st show ?case by simp
qed

lemma run_alone:
  assumes "w < length pool" "todo (pool ! w) = p" "pll_reg (pool ! w) = pll"
  shows "\<exists>k wk' c. run (replicate k w) (pool, s)
                     = (pool[w := wk'], (snd (exec w p (pll, s)))\<lparr>clock := c\<rparr>)
                   \<and> pll_reg wk' = fst (exec w p (pll, s))
                   \<and> (fatal (snd (exec w p (pll, s))) = None \<longrightarrow> todo wk' = [])"
  using assms
proof (induction w p "(pll, s)" arbitrary: pll s pool rule: exec.induct)
  case (1 w pll s pool)
  then show ?case
    by (intro exI [of _ 0] exI [of _ "pool ! w"] exI [of _ "clock s"]) simp
next
  case (2 w i rest pll s pool)
  show ?case
  proof (cases "fatal s = None")
    case False
    with 2(2-) show ?thesis
      by (intro exI [of _ 0] exI [of _ "pool ! w"] exI [of _ "clock s"]) (simp add: exec_fatal)
  next
    case True
    obtain pll' s' pre where a: "act w i pll s = (pll', s', pre)"
      by (cases "act w i pll s") auto
    have nf: "\<not> fatal s \<noteq> None" using True by simp
    let ?wk = "\<lparr>pll_reg = pll', todo = pre @ rest\<rparr>"
    let ?pool = "pool[w := ?wk]"
    let ?E = "exec w (pre @ rest) (pll', s')"
    have st: "sched_step w (pool, s) = (?pool, s'\<lparr>clock := Suc (clock s')\<rparr>)"
      using 2(2-) True a by (simp add: sched_step_def step_def)
    from 2(2) have w: "w < length ?pool" "todo (?pool ! w) = pre @ rest" "pll_reg (?pool ! w) = pll'"
      by simp_all
    have e: "exec w (i # rest) (pll, s) = ?E"
      using True a by (simp add: exec_Cons)
    from 2(1) [OF nf a [symmetric] refl w] show ?thesis
    proof (elim exE conjE)
      fix k wk' c
      assume r: "run (replicate k w) (?pool, s') = (?pool[w := wk'], (snd ?E)\<lparr>clock := c\<rparr>)"
        and p: "pll_reg wk' = fst ?E"
        and d: "fatal (snd ?E) = None \<longrightarrow> todo wk' = []"
      from run_clock [where sched = "replicate k w" and pool = ?pool and s = s' and k = "Suc (clock s')"] r obtain c' where
        "run (replicate k w) (?pool, s'\<lparr>clock := Suc (clock s')\<rparr>)
         = (pool[w := wk'], (snd ?E)\<lparr>clock := c'\<rparr>)"
        by auto
      with st have "run (replicate (Suc k) w) (pool, s) = (pool[w := wk'], (snd ?E)\<lparr>clock := c'\<rparr>)"
        by simp
      then show ?thesis
        unfolding e using p d
        by (intro exI [of _ "Suc k"] exI [of _ wk'] exI [of _ c']) (simp only: simp_thms)
    qed
  qed
qed

end
